theory Spec2Isabelle
  imports Main "HOL-Library.Sublist" "HOL-Library.Multiset"
begin

section \<open>Batch runner: job runner, round scheduler and retry driver\<close>

text \<open>
  A shallow embedding of \<^verbatim>\<open>run_openfold_batch.py\<close>: \<^verbatim>\<open>run_one\<close> (the job runner),
  \<^verbatim>\<open>run_tasks\<close> (one scheduling round) and the retry loop at the end of \<^verbatim>\<open>main\<close>.

  The child process, the file system and the order in which futures complete are outside
  the program. They enter the model as oracles: what one \<^verbatim>\<open>Popen\<close> call does is a
  \<open>behaviour\<close>, chosen by the arguments of the call; the completion time of every future
  is a natural number. Every child is assumed to exit or to fail to start (the source has
  no timeout, a hung child is not modelled). Console output (\<^verbatim>\<open>print\<close>) is left out.
  The text the marker scan reads is what Python's text layer hands to the program: the
  oracle gives the decoded text of the pipe, or says that decoding raises, and gives the
  text read from an offset of the log file; the bytes themselves are not modelled.
\<close>

subsection \<open>Data\<close>

text \<open>A task tuple \<^verbatim>\<open>(cmd, gpu_id, seed_name, log_file)\<close>; \<^verbatim>\<open>log_file\<close> may be \<^verbatim>\<open>None\<close>.\<close>

type_synonym task = "string list \<times> int \<times> string \<times> string option"

definition task_cmd :: "task \<Rightarrow> string list" where
  "task_cmd t = fst t"

definition task_gpu :: "task \<Rightarrow> int" where
  "task_gpu t = fst (snd t)"

definition task_name :: "task \<Rightarrow> string" where
  "task_name t = fst (snd (snd t))"

definition task_log :: "task \<Rightarrow> string option" where
  "task_log t = snd (snd (snd t))"

text \<open>The exceptions the modelled code can raise.\<close>

datatype error = OSError | ValueError | IndexError | UnicodeDecodeError

text \<open>The arguments of one \<^verbatim>\<open>subprocess.Popen\<close> call: command, environment, working
  directory, and the log file standard output is sent to (\<open>None\<close>: a pipe).\<close>

record spawn_call =
  sc_cmd :: "string list"
  sc_env :: "string \<rightharpoonup> string"
  sc_cwd :: string
  sc_log :: "string option"

text \<open>What the outside world does at one call:
  \<^item> \<open>log_opens\<close>: \<^verbatim>\<open>open(log_file, "w")\<close> succeeds (to-file mode only); when it does
    not, it raises \<open>open_error\<close>;
  \<^item> \<open>spawns\<close>: \<^verbatim>\<open>Popen\<close> starts the child; when it does not, it raises
    \<open>spawn_error\<close> (\<^verbatim>\<open>OSError\<close> for a missing executable, \<^verbatim>\<open>ValueError\<close> for a NUL
    byte in an argument);
  \<^item> \<open>returncode\<close>: the child's exit code;
  \<^item> \<open>out\<close>: in-memory mode, the text \<^verbatim>\<open>communicate()\<close> returns for the combined
    standard output and error; \<open>None\<close> when the child's output does not decode: the pipe
    is opened with \<^verbatim>\<open>text=True\<close>, which decodes strictly, and the read raises
    \<^verbatim>\<open>UnicodeDecodeError\<close>;
  \<^item> \<open>log_size\<close>: to-file mode, what \<^verbatim>\<open>f.tell()\<close> gives after the log file was opened
    again (with \<^verbatim>\<open>errors="ignore"\<close>) and positioned at its end; \<open>None\<close> when opening,
    seeking or telling raises;
  \<^item> \<open>read_from\<close>: the text \<^verbatim>\<open>f.read()\<close> returns after \<^verbatim>\<open>f.seek\<close> to the given
    offset; \<open>None\<close> when seeking or reading raises.\<close>

record behaviour =
  log_opens :: bool
  open_error :: error
  spawns :: bool
  spawn_error :: error
  returncode :: int
  out :: "string option"
  log_size :: "nat option"
  read_from :: "nat \<Rightarrow> string option"

type_synonym popen = "spawn_call \<Rightarrow> behaviour"

subsection \<open>The job runner\<close>

text \<open>\<^verbatim>\<open>str(gpu_id)\<close> for an integer: decimal digits, a minus sign when negative.\<close>

definition digit_char :: "nat \<Rightarrow> char" where
  "digit_char d = ''0123456789'' ! d"

function str_nat :: "nat \<Rightarrow> string" where
  "str_nat n = (if n < 10 then [digit_char n] else str_nat (n div 10) @ [digit_char (n mod 10)])"
  by pat_completeness auto
termination
  by (relation "measure (\<lambda>n. n)") auto

declare str_nat.simps [simp del]

definition str_int :: "int \<Rightarrow> string" where
  "str_int i = (if i < 0 then CHR ''-'' # str_nat (nat (- i)) else str_nat (nat i))"

text \<open>Lines 27-29: a copy of \<^verbatim>\<open>os.environ\<close>, \<^verbatim>\<open>CUDA_VISIBLE_DEVICES\<close> assigned,
  \<^verbatim>\<open>CUDA_DEVICE_ORDER\<close> given a default.\<close>

definition setdefault :: "(string \<rightharpoonup> string) \<Rightarrow> string \<Rightarrow> string \<Rightarrow> (string \<rightharpoonup> string)" where
  "setdefault env k v = (case env k of None \<Rightarrow> env(k \<mapsto> v) | Some _ \<Rightarrow> env)"

definition child_env :: "(string \<rightharpoonup> string) \<Rightarrow> int \<Rightarrow> (string \<rightharpoonup> string)" where
  "child_env environ gpu_id =
     setdefault (environ(''CUDA_VISIBLE_DEVICES'' \<mapsto> str_int gpu_id))
       ''CUDA_DEVICE_ORDER'' ''PCI_BUS_ID''"

definition spawn_args ::
  "(string \<rightharpoonup> string) \<Rightarrow> string list \<Rightarrow> int \<Rightarrow> string option \<Rightarrow> string \<Rightarrow> spawn_call" where
  "spawn_args environ cmd gpu_id log_file cwd =
     \<lparr>sc_cmd = cmd, sc_env = child_env environ gpu_id, sc_cwd = cwd, sc_log = log_file\<rparr>"

text \<open>Python's \<^verbatim>\<open>m in text\<close> on strings: \<open>m\<close> occurs in \<open>text\<close> as a contiguous piece.\<close>

fun str_in :: "string \<Rightarrow> string \<Rightarrow> bool" where
  "str_in m [] = (m = [])"
| "str_in m (c # cs) = (prefix m (c # cs) \<or> str_in m cs)"

definition err_markers :: "string list" where
  "err_markers =
     [''Traceback (most recent call last)'',
      ''ValueError:'',
      ''RuntimeError:'',
      ''AssertionError:'',
      ''Error:'',
      ''Exception:'',
      ''More than one input sequence found'']"

text \<open>Lines 67-72: a zero exit code becomes 1 when a marker occurs in the text.\<close>

definition classify :: "int \<Rightarrow> string \<Rightarrow> int" where
  "classify ret text =
     (if ret = 0 then (if list_ex (\<lambda>m. str_in m text) err_markers then 1 else ret) else ret)"

text \<open>Lines 48-53, inside the \<^verbatim>\<open>try\<close>: the size of the log file, then the text read
  from \<^verbatim>\<open>max(0, size - 200000)\<close> on; \<open>None\<close> when a step raises.\<close>

definition readback :: "behaviour \<Rightarrow> string option" where
  "readback b =
     (case log_size b of
        None \<Rightarrow> None
      | Some end_pos \<Rightarrow> read_from b (end_pos - 200000))"

text \<open>Lines 47-55: \<^verbatim>\<open>except Exception\<close> turns a failed read into the empty text.\<close>

definition tail_text :: "string option \<Rightarrow> string" where
  "tail_text r = (case r of None \<Rightarrow> [] | Some t \<Rightarrow> t)"

text \<open>The text the marker scan reads: the pipe's output, or the tail of the log file.
  There is none when the pipe's output does not decode.\<close>

definition captured_text :: "behaviour \<Rightarrow> string option \<Rightarrow> string" where
  "captured_text b log_file =
     (case log_file of
        None \<Rightarrow> (case out b of None \<Rightarrow> [] | Some t \<Rightarrow> t)
      | Some _ \<Rightarrow> tail_text (readback b))"

text \<open>\<^verbatim>\<open>run_one\<close>. Nothing in it catches what \<^verbatim>\<open>open\<close> for writing, \<^verbatim>\<open>Popen\<close> or
  \<^verbatim>\<open>communicate\<close> raise; only the read-back of the log file is inside a \<^verbatim>\<open>try\<close>.\<close>

definition run_one ::
  "(string \<rightharpoonup> string) \<Rightarrow> popen \<Rightarrow> string list \<Rightarrow> int \<Rightarrow> string option \<Rightarrow> string \<Rightarrow> error + int" where
  "run_one environ world cmd gpu_id log_file cwd =
     (let b = world (spawn_args environ cmd gpu_id log_file cwd) in
      case log_file of
        None \<Rightarrow>
          if \<not> spawns b then Inl (spawn_error b)
          else (case out b of
                  None \<Rightarrow> Inl UnicodeDecodeError
                | Some text \<Rightarrow> Inr (classify (returncode b) text))
      | Some _ \<Rightarrow>
          if \<not> log_opens b then Inl (open_error b)
          else if \<not> spawns b then Inl (spawn_error b)
          else Inr (classify (returncode b) (tail_text (readback b))))"

subsection \<open>One scheduling round\<close>

text \<open>A future: the rank at which \<^verbatim>\<open>as_completed\<close> yields it, and what
  \<^verbatim>\<open>fut.result()\<close> gives (the return value of \<^verbatim>\<open>run_one\<close>, or its exception).\<close>

record future =
  done_at :: nat
  fut_result :: "error + int"

text \<open>Lines 85-88, the loop over \<^verbatim>\<open>enumerate(tasks)\<close>, building \<^verbatim>\<open>future_to_task\<close> in
  submission order. The GPU id stored in the tuple is not read. \<^verbatim>\<open>cmd[1]\<close> raises
  \<^verbatim>\<open>IndexError\<close> on a command shorter than two words. \<^verbatim>\<open>Path(...).parent\<close> belongs to the
  standard library and is the parameter \<open>path_parent\<close>. The job at position \<open>i\<close> meets
  the world \<open>world i\<close> and completes at rank \<open>rank i\<close>.\<close>

fun submit_loop ::
  "(string \<rightharpoonup> string) \<Rightarrow> (string \<Rightarrow> string) \<Rightarrow> (nat \<Rightarrow> popen) \<Rightarrow> (nat \<Rightarrow> nat) \<Rightarrow>
   int list \<Rightarrow> nat \<Rightarrow> task list \<Rightarrow> error + (future \<times> task) list" where
  "submit_loop environ path_parent world rank gpu_ids i [] = Inr []"
| "submit_loop environ path_parent world rank gpu_ids i ((cmd, _, seed_name, log_file) # tasks) =
     (let gpu_id = gpu_ids ! (i mod length gpu_ids) in
      if length cmd < 2 then Inl IndexError
      else
        let fut = \<lparr>done_at = rank i,
                   fut_result = run_one environ (world i) cmd gpu_id log_file (path_parent (cmd ! 1))\<rparr>
        in case submit_loop environ path_parent world rank gpu_ids (Suc i) tasks of
             Inl e \<Rightarrow> Inl e
           | Inr futs \<Rightarrow> Inr ((fut, (cmd, gpu_id, seed_name, log_file)) # futs))"

text \<open>\<^verbatim>\<open>as_completed\<close>: every future once, in the order of completion.\<close>

definition as_completed :: "(future \<times> task) list \<Rightarrow> (future \<times> task) list" where
  "as_completed futs = sort_key (\<lambda>ft. done_at (fst ft)) futs"

text \<open>Lines 90-98: \<^verbatim>\<open>fut.result()\<close> raises again what \<^verbatim>\<open>run_one\<close> raised, which ends the
  round; otherwise the name goes to \<^verbatim>\<open>ok\<close> or the tuple to \<^verbatim>\<open>fail\<close>.\<close>

fun collect ::
  "(future \<times> task) list \<Rightarrow> string list \<Rightarrow> task list \<Rightarrow> error + (string list \<times> task list)" where
  "collect [] ok fail = Inr (ok, fail)"
| "collect ((fut, (cmd, gpu_id, seed_name, log_file)) # futs) ok fail =
     (case fut_result fut of
        Inl e \<Rightarrow> Inl e
      | Inr ret \<Rightarrow>
          if ret = 0 then collect futs (ok @ [seed_name]) fail
          else collect futs ok (fail @ [(cmd, gpu_id, seed_name, log_file)]))"

text \<open>\<^verbatim>\<open>run_tasks\<close>. \<^verbatim>\<open>ThreadPoolExecutor(max_workers=0)\<close> raises \<^verbatim>\<open>ValueError\<close>, so an
  empty GPU list never reaches the modulo. The parameter \<^verbatim>\<open>script\<close> of the source is
  not used by it and is left out.\<close>

definition run_tasks ::
  "(string \<rightharpoonup> string) \<Rightarrow> (string \<Rightarrow> string) \<Rightarrow> (nat \<Rightarrow> popen) \<Rightarrow> (nat \<Rightarrow> nat) \<Rightarrow>
   task list \<Rightarrow> int list \<Rightarrow> error + (string list \<times> task list)" where
  "run_tasks environ path_parent world rank tasks gpu_ids =
     (if length gpu_ids = 0 then Inl ValueError
      else case submit_loop environ path_parent world rank gpu_ids 0 tasks of
             Inl e \<Rightarrow> Inl e
           | Inr futs \<Rightarrow> collect (as_completed futs) [] [])"

subsection \<open>The retry driver\<close>

text \<open>Lines 179-194 of \<^verbatim>\<open>main\<close>. Round \<open>r\<close> (0 for the first run) meets the worlds
  \<open>world r\<close> and the completion ranks \<open>rank r\<close>. Beside the final \<^verbatim>\<open>ok\<close> and \<^verbatim>\<open>fail\<close>
  the model keeps a log of the rounds, as the source prints one line per round: the
  list submitted to the round and what \<^verbatim>\<open>run_tasks\<close> returned or raised.\<close>

type_synonym round_log = "task list \<times> (error + (string list \<times> task list))"

function retry_loop ::
  "(string \<rightharpoonup> string) \<Rightarrow> (string \<Rightarrow> string) \<Rightarrow> (nat \<Rightarrow> nat \<Rightarrow> popen) \<Rightarrow> (nat \<Rightarrow> nat \<Rightarrow> nat) \<Rightarrow>
   int list \<Rightarrow> int \<Rightarrow> nat \<Rightarrow> string list \<Rightarrow> task list \<Rightarrow> round_log list \<Rightarrow>
   round_log list \<times> (error + (string list \<times> task list))" where
  "retry_loop environ path_parent world rank gpu_ids max_retries attempts ok fail hist =
     (if fail \<noteq> [] \<and> int attempts < max_retries then
        (case run_tasks environ path_parent (world (Suc attempts)) (rank (Suc attempts)) fail gpu_ids of
           Inl e \<Rightarrow> (hist @ [(fail, Inl e)], Inl e)
         | Inr (ok2, fail2) \<Rightarrow>
             retry_loop environ path_parent world rank gpu_ids max_retries (Suc attempts)
               (ok @ ok2) fail2 (hist @ [(fail, Inr (ok2, fail2))]))
      else (hist, Inr (ok, fail)))"
  by pat_completeness auto
termination
  by (relation "measure (\<lambda>(environ, path_parent, world, rank, gpu_ids, max_retries, attempts, ok, fail, hist).
        nat (max_retries - int attempts))") auto

declare retry_loop.simps [simp del]

definition driver ::
  "(string \<rightharpoonup> string) \<Rightarrow> (string \<Rightarrow> string) \<Rightarrow> (nat \<Rightarrow> nat \<Rightarrow> popen) \<Rightarrow> (nat \<Rightarrow> nat \<Rightarrow> nat) \<Rightarrow>
   task list \<Rightarrow> int list \<Rightarrow> int \<Rightarrow> round_log list \<times> (error + (string list \<times> task list))" where
  "driver environ path_parent world rank tasks gpu_ids max_retries =
     (case run_tasks environ path_parent (world 0) (rank 0) tasks gpu_ids of
        Inl e \<Rightarrow> ([(tasks, Inl e)], Inl e)
      | Inr (ok, fail) \<Rightarrow>
          retry_loop environ path_parent world rank gpu_ids max_retries 0 ok fail
            [(tasks, Inr (ok, fail))])"

text \<open>How often a job name was handed to a round.\<close>

definition attempts_of :: "string \<Rightarrow> round_log list \<Rightarrow> nat" where
  "attempts_of n hist = sum_list (map (\<lambda>r. length (filter (\<lambda>t. task_name t = n) (fst r))) hist)"

subsection \<open>Notions used by the statements\<close>

text \<open>The run gets as far as a running child: \<^verbatim>\<open>Popen\<close> succeeds and, in to-file mode,
  so does opening the log file for writing.\<close>

definition started :: "behaviour \<Rightarrow> string option \<Rightarrow> bool" where
  "started b log_file = (spawns b \<and> (log_file \<noteq> None \<longrightarrow> log_opens b))"

text \<open>The child's output can be captured: in in-memory mode the pipe's output decodes.
  In to-file mode nothing is decoded before the child has ended.\<close>

definition decodes :: "behaviour \<Rightarrow> string option \<Rightarrow> bool" where
  "decodes b log_file = (log_file = None \<longrightarrow> out b \<noteq> None)"

text \<open>The tuple stored in \<^verbatim>\<open>future_to_task\<close> for the task at position \<open>i\<close>, and its future.\<close>

definition slot :: "int list \<Rightarrow> nat \<Rightarrow> task \<Rightarrow> task" where
  "slot gpu_ids i t = (task_cmd t, gpu_ids ! (i mod length gpu_ids), task_name t, task_log t)"

definition job_future ::
  "(string \<rightharpoonup> string) \<Rightarrow> (string \<Rightarrow> string) \<Rightarrow> (nat \<Rightarrow> popen) \<Rightarrow> (nat \<Rightarrow> nat) \<Rightarrow>
   int list \<Rightarrow> nat \<Rightarrow> task \<Rightarrow> future" where
  "job_future environ path_parent world rank gpu_ids i t =
     \<lparr>done_at = rank i,
      fut_result = run_one environ (world i) (task_cmd t) (gpu_ids ! (i mod length gpu_ids))
                     (task_log t) (path_parent (task_cmd t ! 1))\<rparr>"

definition round_futs ::
  "(string \<rightharpoonup> string) \<Rightarrow> (string \<Rightarrow> string) \<Rightarrow> (nat \<Rightarrow> popen) \<Rightarrow> (nat \<Rightarrow> nat) \<Rightarrow>
   int list \<Rightarrow> task list \<Rightarrow> (future \<times> task) list" where
  "round_futs environ path_parent world rank gpu_ids tasks =
     map (\<lambda>(j, t). (job_future environ path_parent world rank gpu_ids j t, slot gpu_ids j t))
       (enumerate 0 tasks)"

definition passed :: "future \<times> task \<Rightarrow> bool" where
  "passed ft = (fut_result (fst ft) = Inr 0)"

text \<open>A command that fails whenever it is run: in every round, at every position, on every
  GPU, the job runner returns a nonzero code.\<close>

definition doomed :: "(string \<rightharpoonup> string) \<Rightarrow> (nat \<Rightarrow> nat \<Rightarrow> popen) \<Rightarrow> string list \<Rightarrow> bool" where
  "doomed environ world cmd =
     (\<forall>r i gpu_id log_file cwd. \<exists>ret.
        run_one environ (world r i) cmd gpu_id log_file cwd = Inr ret \<and> ret \<noteq> 0)"

subsection \<open>Concrete inputs for the instances\<close>

text \<open>A child that starts, prints nothing and exits with code 0; its log file is empty.\<close>

definition clean_exit :: behaviour where
  "clean_exit =
     \<lparr>log_opens = True, open_error = OSError, spawns = True, spawn_error = OSError,
      returncode = 0, out = Some [], log_size = Some 0, read_from = (\<lambda>offset. Some [])\<rparr>"

definition silent_failure :: behaviour where
  "silent_failure = clean_exit\<lparr>out := Some ''step 3: RuntimeError: CUDA out of memory''\<rparr>"

text \<open>A child that prints a byte that is no text (0xFF under UTF-8) and exits with code 1.\<close>

definition garbled_output :: behaviour where
  "garbled_output = clean_exit\<lparr>returncode := 1, out := None\<rparr>"

definition garbled_world :: popen where
  "garbled_world sc = garbled_output"

definition demo_cmd :: "string list" where
  "demo_cmd = [''python3'', ''/opt/openfold/run_pretrained_openfold.py'', ''fasta'', ''mmcif'']"

definition demo_environ :: "string \<rightharpoonup> string" where
  "demo_environ = [''HOME'' \<mapsto> ''/root'']"

definition unreadable_log :: behaviour where
  "unreadable_log = clean_exit\<lparr>log_size := None\<rparr>"

definition cmd_A :: "string list" where
  "cmd_A = [''python3'', ''/opt/openfold/run_pretrained_openfold.py'', ''--output_dir'', ''out/seed_A'']"

definition cmd_B :: "string list" where
  "cmd_B = [''python3'', ''/opt/openfold/run_pretrained_openfold.py'', ''--output_dir'', ''out/seed_B'']"

definition task_A :: task where
  "task_A = (cmd_A, - 1, ''seed_A'', None)"

definition task_B :: task where
  "task_B = (cmd_B, - 1, ''seed_B'', None)"

definition demo_parent :: "string \<Rightarrow> string" where
  "demo_parent p = ''/opt/openfold''"

text \<open>A world in which the command of job B exits with code 1 and every other command
  with code 0, and futures complete in the reverse of the submission order.\<close>

definition demo_world :: "nat \<Rightarrow> nat \<Rightarrow> popen" where
  "demo_world r i sc =
     clean_exit\<lparr>returncode := (if sc_cmd sc = cmd_B then 1 else 0)\<rparr>"

definition demo_rank :: "nat \<Rightarrow> nat \<Rightarrow> nat" where
  "demo_rank r i = 10 - i"

text \<open>What the submission loop reads of a task: everything but the stored GPU id.\<close>

definition task_core :: "task \<Rightarrow> string list \<times> string \<times> string option" where
  "task_core t = (task_cmd t, task_name t, task_log t)"

definition no_python :: behaviour where
  "no_python = clean_exit\<lparr>spawns := False\<rparr>"

text \<open>A world in which the command of job B cannot be started.\<close>

definition broken_world :: "nat \<Rightarrow> nat \<Rightarrow> popen" where
  "broken_world r i sc = (if sc_cmd sc = cmd_B then no_python else demo_world r i sc)"

text \<open>Exactly one task of the list has the name \<open>n\<close>, and its command is \<open>c\<close>.\<close>

definition sole :: "string \<Rightarrow> string list \<Rightarrow> task list \<Rightarrow> bool" where
  "sole n c ts = (map task_cmd (filter (\<lambda>t. task_name t = n) ts) = [c])"

text \<open>No name that a round reported as succeeded is handed to a later round.\<close>

definition dropped :: "round_log list \<Rightarrow> bool" where
  "dropped hist =
     (\<forall>k' < length hist. \<forall>k < k'. \<forall>ok fail. snd (hist ! k) = Inr (ok, fail) \<longrightarrow>
        set ok \<inter> set (map task_name (fst (hist ! k'))) = {})"

text \<open>What holds between the rounds of the retry loop.\<close>

definition loop_inv :: "round_log list \<Rightarrow> string list \<Rightarrow> task list \<Rightarrow> bool" where
  "loop_inv hist ok fail =
     (dropped hist \<and>
      (\<forall>r \<in> set hist. \<forall>ok_r fail_r. snd r = Inr (ok_r, fail_r) \<longrightarrow>
         set ok_r \<subseteq> set ok \<and> set ok_r \<inter> set (map task_name fail) = {}) \<and>
      distinct (map task_name fail) \<and> distinct ok \<and>
      set ok \<inter> set (map task_name fail) = {})"

text \<open>The names a round reported as succeeded; none when the round raised.\<close>

definition round_ok :: "round_log \<Rightarrow> string list" where
  "round_ok r = (case snd r of Inl e \<Rightarrow> [] | Inr (ok, fail) \<Rightarrow> ok)"

text \<open>The log is what the rounds did: it starts with the submitted list; every entry
  holds what \<^verbatim>\<open>run_tasks\<close> gave for its list in its round; every later list is the
  failed list of the round before, and is not empty.\<close>

definition chained ::
  "(string \<rightharpoonup> string) \<Rightarrow> (string \<Rightarrow> string) \<Rightarrow> (nat \<Rightarrow> nat \<Rightarrow> popen) \<Rightarrow> (nat \<Rightarrow> nat \<Rightarrow> nat) \<Rightarrow>
   int list \<Rightarrow> task list \<Rightarrow> round_log list \<Rightarrow> bool" where
  "chained environ path_parent world rank gpu_ids tasks hist =
     (hist \<noteq> [] \<and> fst (hist ! 0) = tasks \<and>
      (\<forall>k < length hist.
         snd (hist ! k) = run_tasks environ path_parent (world k) (rank k) (fst (hist ! k)) gpu_ids) \<and>
      (\<forall>k. Suc k < length hist \<longrightarrow>
         fst (hist ! Suc k) \<noteq> [] \<and> (\<exists>ok_k. snd (hist ! k) = Inr (ok_k, fst (hist ! Suc k)))))"

text \<open>What the driver ends with, read off the log: the exception of the last round, or
  all succeeded names in the order of the rounds and the failed list of the last round.\<close>

definition outcome_of :: "round_log list \<Rightarrow> error + (string list \<times> task list)" where
  "outcome_of hist =
     (case snd (last hist) of
        Inl e \<Rightarrow> Inl e
      | Inr (ok_l, fail_l) \<Rightarrow> Inr (concat (map round_ok hist), fail_l))"

section \<open>Properties\<close>

subsection \<open>Auxiliary facts\<close>

lemmas task_sel = task_cmd_def task_gpu_def task_name_def task_log_def

lemma str_in_sublist: "str_in m t = sublist m t"
  by (induction t) (auto simp: sublist_Cons_right)

lemma run_one_started:
  "started (world (spawn_args environ cmd gpu_id log_file cwd)) log_file \<Longrightarrow>
   decodes (world (spawn_args environ cmd gpu_id log_file cwd)) log_file \<Longrightarrow>
   run_one environ world cmd gpu_id log_file cwd =
     Inr (classify (returncode (world (spawn_args environ cmd gpu_id log_file cwd)))
            (captured_text (world (spawn_args environ cmd gpu_id log_file cwd)) log_file))"
  by (cases log_file)
     (auto simp: run_one_def started_def decodes_def captured_text_def Let_def split: option.splits)

lemma classify_zero_iff:
  "classify ret text = 0 \<longleftrightarrow> ret = 0 \<and> (\<forall>m \<in> set err_markers. \<not> sublist m text)"
  by (auto simp: classify_def list_ex_iff str_in_sublist)

lemma submit_loop_Inr:
  "submit_loop environ path_parent world rank gpu_ids i tasks = Inr futs \<Longrightarrow>
   futs = map (\<lambda>(j, t). (job_future environ path_parent world rank gpu_ids j t, slot gpu_ids j t))
            (enumerate i tasks) \<and> (\<forall>t \<in> set tasks. 2 \<le> length (task_cmd t))"
proof (induction tasks arbitrary: i futs)
  case Nil
  then show ?case by simp
next
  case (Cons t tasks)
  obtain cmd g n lf where t: "t = (cmd, g, n, lf)"
    by (cases t) auto
  from Cons.prems t have len: "2 \<le> length cmd"
    by (auto simp: Let_def split: if_splits)
  with Cons.prems t obtain rest where
    rest: "submit_loop environ path_parent world rank gpu_ids (Suc i) tasks = Inr rest" and
    futs: "futs = (job_future environ path_parent world rank gpu_ids i t, slot gpu_ids i t) # rest"
    by (auto simp: Let_def task_sel slot_def job_future_def split: sum.splits)
  from Cons.IH [OF rest] futs len t show ?case
    by (simp add: task_sel)
qed

lemma submit_loop_total:
  "\<forall>t \<in> set tasks. 2 \<le> length (task_cmd t) \<Longrightarrow>
   \<exists>futs. submit_loop environ path_parent world rank gpu_ids i tasks = Inr futs"
proof (induction tasks arbitrary: i)
  case Nil
  then show ?case by simp
next
  case (Cons t tasks)
  obtain cmd g n lf where t: "t = (cmd, g, n, lf)"
    by (cases t) auto
  from Cons.prems have "\<forall>t \<in> set tasks. 2 \<le> length (task_cmd t)"
    by simp
  from Cons.IH [OF this, of "Suc i"] obtain rest where
    "submit_loop environ path_parent world rank gpu_ids (Suc i) tasks = Inr rest"
    by blast
  with Cons.prems t show ?case
    by (simp add: Let_def task_sel)
qed

lemma collect_Inr:
  "collect futs ok fail = Inr (ok', fail') \<Longrightarrow>
   ok' = ok @ map (\<lambda>ft. task_name (snd ft)) (filter passed futs) \<and>
   fail' = fail @ map snd (filter (\<lambda>ft. \<not> passed ft) futs) \<and>
   (\<forall>ft \<in> set futs. \<not> isl (fut_result (fst ft)))"
  by (induction futs ok fail rule: collect.induct)
     (auto simp: passed_def task_sel split: sum.splits if_splits)

lemma collect_Inl:
  "collect futs ok fail = Inl e \<Longrightarrow> \<exists>ft \<in> set futs. fut_result (fst ft) = Inl e"
  by (induction futs ok fail rule: collect.induct) (auto split: sum.splits if_splits)

lemma collect_total:
  "\<forall>ft \<in> set futs. \<not> isl (fut_result (fst ft)) \<Longrightarrow> \<exists>r. collect futs ok fail = Inr r"
  by (induction futs ok fail rule: collect.induct) (auto split: sum.splits if_splits)

lemma mset_as_completed: "mset (as_completed futs) = mset futs"
  by (simp add: as_completed_def)

lemma set_as_completed: "set (as_completed futs) = set futs"
  by (simp add: as_completed_def)

lemma length_round_futs [simp]:
  "length (round_futs environ path_parent world rank gpu_ids tasks) = length tasks"
  by (simp add: round_futs_def)

lemma nth_round_futs:
  "i < length tasks \<Longrightarrow>
   round_futs environ path_parent world rank gpu_ids tasks ! i =
     (job_future environ path_parent world rank gpu_ids i (tasks ! i), slot gpu_ids i (tasks ! i))"
  by (simp add: round_futs_def nth_enumerate_eq)

lemma slot_sel [simp]:
  "task_cmd (slot gpu_ids i t) = task_cmd t"
  "task_name (slot gpu_ids i t) = task_name t"
  "task_log (slot gpu_ids i t) = task_log t"
  "task_gpu (slot gpu_ids i t) = gpu_ids ! (i mod length gpu_ids)"
  by (simp_all add: slot_def task_sel)

lemma round_futs_names:
  "map (\<lambda>ft. task_name (snd ft)) (round_futs environ path_parent world rank gpu_ids tasks) =
   map task_name tasks"
  by (rule nth_equalityI) (simp_all add: nth_round_futs)

lemma run_tasks_Inr:
  assumes "run_tasks environ path_parent world rank tasks gpu_ids = Inr (ok, fail)"
  shows "gpu_ids \<noteq> []"
    and "\<forall>t \<in> set tasks. 2 \<le> length (task_cmd t)"
    and "\<forall>ft \<in> set (round_futs environ path_parent world rank gpu_ids tasks). \<not> isl (fut_result (fst ft))"
    and "ok = map (\<lambda>ft. task_name (snd ft))
                (filter passed (as_completed (round_futs environ path_parent world rank gpu_ids tasks)))"
    and "fail = map snd
                (filter (\<lambda>ft. \<not> passed ft) (as_completed (round_futs environ path_parent world rank gpu_ids tasks)))"
proof -
  from assms show g: "gpu_ids \<noteq> []"
    by (auto simp: run_tasks_def split: if_splits)
  from assms g obtain futs where
    sub: "submit_loop environ path_parent world rank gpu_ids 0 tasks = Inr futs" and
    col: "collect (as_completed futs) [] [] = Inr (ok, fail)"
    by (auto simp: run_tasks_def split: sum.splits)
  from submit_loop_Inr [OF sub] have
    futs: "futs = round_futs environ path_parent world rank gpu_ids tasks" and
    len: "\<forall>t \<in> set tasks. 2 \<le> length (task_cmd t)"
    by (simp_all add: round_futs_def)
  from len show "\<forall>t \<in> set tasks. 2 \<le> length (task_cmd t)" .
  from collect_Inr [OF col] futs
  show "\<forall>ft \<in> set (round_futs environ path_parent world rank gpu_ids tasks). \<not> isl (fut_result (fst ft))"
    and "ok = map (\<lambda>ft. task_name (snd ft))
                (filter passed (as_completed (round_futs environ path_parent world rank gpu_ids tasks)))"
    and "fail = map snd
                (filter (\<lambda>ft. \<not> passed ft) (as_completed (round_futs environ path_parent world rank gpu_ids tasks)))"
    by (simp_all add: set_as_completed)
qed

lemma run_tasks_names_mset:
  assumes "run_tasks environ path_parent world rank tasks gpu_ids = Inr (ok, fail)"
  shows "mset ok + mset (map task_name fail) = mset (map task_name tasks)"
proof -
  let ?F = "round_futs environ path_parent world rank gpu_ids tasks"
  let ?nm = "\<lambda>ft. task_name (snd ft)"
  have "mset ok + mset (map task_name fail) =
        mset (map ?nm (filter passed (as_completed ?F))) +
        mset (map ?nm (filter (\<lambda>ft. \<not> passed ft) (as_completed ?F)))"
    using run_tasks_Inr(4,5) [OF assms] by (simp add: comp_def)
  also have "\<dots> = image_mset ?nm (mset (as_completed ?F))"
    by (simp flip: image_mset_union)
  also have "\<dots> = mset (map ?nm ?F)"
    by (simp add: mset_as_completed)
  finally show ?thesis
    by (simp add: round_futs_names)
qed

text \<open>A round returns a result when the GPU list is not empty, every command has its
  two words, every child starts and the output of every child can be captured.\<close>

lemma run_tasks_returns:
  assumes "gpu_ids \<noteq> []" and "\<forall>t \<in> set tasks. 2 \<le> length (task_cmd t)"
    and "\<forall>i < length tasks.
           started (world i (spawn_args environ (task_cmd (tasks ! i))
                      (gpu_ids ! (i mod length gpu_ids)) (task_log (tasks ! i))
                      (path_parent (task_cmd (tasks ! i) ! 1))))
             (task_log (tasks ! i)) \<and>
           decodes (world i (spawn_args environ (task_cmd (tasks ! i))
                      (gpu_ids ! (i mod length gpu_ids)) (task_log (tasks ! i))
                      (path_parent (task_cmd (tasks ! i) ! 1))))
             (task_log (tasks ! i))"
  shows "\<exists>ok fail. run_tasks environ path_parent world rank tasks gpu_ids = Inr (ok, fail)"
proof -
  from submit_loop_total [OF assms(2)] obtain futs where
    s: "submit_loop environ path_parent world rank gpu_ids 0 tasks = Inr futs"
    by blast
  have f: "futs = round_futs environ path_parent world rank gpu_ids tasks"
    using submit_loop_Inr [OF s] by (simp add: round_futs_def)
  have "\<not> isl (fut_result (fst ft))" if "ft \<in> set (as_completed futs)" for ft
  proof -
    from that f obtain i where i: "i < length tasks" and
      ft: "ft = (job_future environ path_parent world rank gpu_ids i (tasks ! i),
                 slot gpu_ids i (tasks ! i))"
      by (auto simp: set_as_completed in_set_conv_nth nth_round_futs)
    from assms(3) i have "started (world i (spawn_args environ (task_cmd (tasks ! i))
                      (gpu_ids ! (i mod length gpu_ids)) (task_log (tasks ! i))
                      (path_parent (task_cmd (tasks ! i) ! 1))))
             (task_log (tasks ! i))"
      and "decodes (world i (spawn_args environ (task_cmd (tasks ! i))
                      (gpu_ids ! (i mod length gpu_ids)) (task_log (tasks ! i))
                      (path_parent (task_cmd (tasks ! i) ! 1))))
             (task_log (tasks ! i))"
      by blast+
    from run_one_started [where world = "world i", OF this] ft show ?thesis
      by (simp add: job_future_def)
  qed
  then have "\<forall>ft \<in> set (as_completed futs). \<not> isl (fut_result (fst ft))"
    by blast
  from collect_total [OF this, of "[]" "[]"] obtain r where
    "collect (as_completed futs) [] [] = Inr r"
    by blast
  with s assms(1) show ?thesis
    by (cases r) (simp add: run_tasks_def)
qed

subsection \<open>The verdict of the job runner\<close>

text \<open>When the child was started and its output could be captured, \<^verbatim>\<open>run_one\<close> returns
  a code, and the code is 0 (the job counts as succeeded) exactly when the child's exit
  code is 0 and no failure marker occurs in the captured text. With exit code 0 and a
  marker in the text the code returned is 1; a nonzero exit code is returned as it is,
  whatever the text.\<close>

lemma run_one_verdict:
  assumes "b = world (spawn_args environ cmd gpu_id log_file cwd)"
    and "started b log_file" and "decodes b log_file"
  shows "\<exists>ret. run_one environ world cmd gpu_id log_file cwd = Inr ret \<and>
           (ret = 0 \<longleftrightarrow>
              returncode b = 0 \<and> (\<forall>m \<in> set err_markers. \<not> sublist m (captured_text b log_file))) \<and>
           (returncode b = 0 \<and> (\<exists>m \<in> set err_markers. sublist m (captured_text b log_file))
              \<longrightarrow> ret = 1) \<and>
           (returncode b \<noteq> 0 \<longrightarrow> ret = returncode b)"
proof -
  let ?ret = "classify (returncode b) (captured_text b log_file)"
  have "run_one environ world cmd gpu_id log_file cwd = Inr ?ret"
    using assms run_one_started by simp
  moreover have "?ret = 0 \<longleftrightarrow>
      returncode b = 0 \<and> (\<forall>m \<in> set err_markers. \<not> sublist m (captured_text b log_file))"
    by (rule classify_zero_iff)
  moreover have "returncode b = 0 \<and> (\<exists>m \<in> set err_markers. sublist m (captured_text b log_file))
      \<longrightarrow> ?ret = 1"
    by (auto simp: classify_def list_ex_iff str_in_sublist)
  moreover have "returncode b \<noteq> 0 \<longrightarrow> ?ret = returncode b"
    by (simp add: classify_def)
  ultimately show ?thesis by blast
qed

lemma run_one_verdict_instance:
  "started silent_failure None \<and> decodes silent_failure None \<and>
   run_one demo_environ (\<lambda>_. silent_failure) demo_cmd 3 None ''/opt/openfold'' = Inr 1"
proof -
  have st: "started silent_failure None" "decodes silent_failure None"
    by (simp_all add: started_def decodes_def silent_failure_def clean_exit_def)
  have mk: "\<exists>m \<in> set err_markers. sublist m (captured_text silent_failure None)"
    by (simp add: err_markers_def captured_text_def silent_failure_def clean_exit_def
        flip: str_in_sublist)
  have rc: "returncode silent_failure = 0"
    by (simp add: silent_failure_def clean_exit_def)
  from run_one_verdict [where b = silent_failure and world = "\<lambda>_. silent_failure"
      and environ = demo_environ and cmd = demo_cmd and gpu_id = 3 and log_file = None
      and cwd = "''/opt/openfold''"] mk rc st
  show ?thesis by auto
qed

text \<open>C1 says that a job with a nonzero exit code is classified as failed whatever its
  output, and that every job gets a verdict from exit code and markers. In in-memory mode
  the code does not do so for a child whose output is not valid text: the child starts,
  prints a byte that does not decode and exits with code 1; \<^verbatim>\<open>communicate()\<close> raises
  \<^verbatim>\<open>UnicodeDecodeError\<close>, and \<^verbatim>\<open>run_one\<close> raises it on instead of returning 1. The
  to-file path reads the same bytes with \<^verbatim>\<open>errors="ignore"\<close> inside a \<^verbatim>\<open>try\<close> and
  returns the exit code.\<close>

theorem run_one_undecodable_output:
  "spawns garbled_output \<and> returncode garbled_output = 1 \<and> out garbled_output = None \<and>
   run_one demo_environ garbled_world demo_cmd 0 None ''/opt/openfold'' = Inl UnicodeDecodeError \<and>
   run_one demo_environ garbled_world demo_cmd 0 (Some ''logs/seed_1.log'') ''/opt/openfold'' = Inr 1"
  by (simp add: garbled_output_def garbled_world_def clean_exit_def run_one_def
      readback_def tail_text_def classify_def)

subsection \<open>The environment of the child\<close>

text \<open>C6. The environment \<^verbatim>\<open>run_one\<close> hands to \<^verbatim>\<open>Popen\<close> has
  \<^verbatim>\<open>CUDA_VISIBLE_DEVICES\<close> set to the decimal text of the GPU id, has
  \<^verbatim>\<open>CUDA_DEVICE_ORDER\<close> set to \<^verbatim>\<open>PCI_BUS_ID\<close> when the caller's environment does not set
  it and left as it is otherwise, and agrees with the caller's environment on every other
  variable. It is the environment of the only \<^verbatim>\<open>Popen\<close> call: the result of
  \<^verbatim>\<open>run_one\<close> depends on the world at these arguments alone.\<close>

theorem child_environment:
  "sc_env (spawn_args environ cmd gpu_id log_file cwd) ''CUDA_VISIBLE_DEVICES'' = Some (str_int gpu_id) \<and>
   sc_env (spawn_args environ cmd gpu_id log_file cwd) ''CUDA_DEVICE_ORDER'' =
     (case environ ''CUDA_DEVICE_ORDER'' of None \<Rightarrow> Some ''PCI_BUS_ID'' | Some v \<Rightarrow> Some v) \<and>
   (\<forall>k. k \<noteq> ''CUDA_VISIBLE_DEVICES'' \<and> k \<noteq> ''CUDA_DEVICE_ORDER'' \<longrightarrow>
        sc_env (spawn_args environ cmd gpu_id log_file cwd) k = environ k) \<and>
   (\<forall>world'. world' (spawn_args environ cmd gpu_id log_file cwd) =
                world (spawn_args environ cmd gpu_id log_file cwd) \<longrightarrow>
        run_one environ world' cmd gpu_id log_file cwd = run_one environ world cmd gpu_id log_file cwd)"
  by (auto simp: spawn_args_def child_env_def setdefault_def run_one_def Let_def
           split: option.splits)

theorem child_environment_witness:
  "sc_env (spawn_args demo_environ demo_cmd 12 None ''/opt/openfold'') ''CUDA_VISIBLE_DEVICES'' = Some ''12'' \<and>
   sc_env (spawn_args demo_environ demo_cmd 12 None ''/opt/openfold'') ''CUDA_DEVICE_ORDER'' = Some ''PCI_BUS_ID'' \<and>
   sc_env (spawn_args demo_environ demo_cmd 12 None ''/opt/openfold'') ''HOME'' = Some ''/root''"
proof -
  have s: "str_int 12 = ''12''"
    by (simp add: str_int_def str_nat.simps digit_char_def)
  have e: "demo_environ ''CUDA_DEVICE_ORDER'' = None" "demo_environ ''HOME'' = Some ''/root''"
    by (simp_all add: demo_environ_def)
  from child_environment [of demo_environ demo_cmd 12 None "''/opt/openfold''" "\<lambda>_. silent_failure"] s e
  show ?thesis by simp
qed

subsection \<open>A log file that cannot be read back\<close>

text \<open>C7. In to-file mode, when the child ran and reading the log file back raises, the
  captured text is empty, no marker is found in it, and \<^verbatim>\<open>run_one\<close> returns the child's
  exit code: a verdict, not an exception.\<close>

theorem log_read_failure:
  assumes "b = world (spawn_args environ cmd gpu_id (Some log_file) cwd)"
    and "log_opens b" and "spawns b" and "readback b = None"
  shows "captured_text b (Some log_file) = [] \<and>
         \<not> list_ex (\<lambda>m. str_in m (captured_text b (Some log_file))) err_markers \<and>
         run_one environ world cmd gpu_id (Some log_file) cwd = Inr (returncode b)"
proof -
  have t: "captured_text b (Some log_file) = []"
    using assms by (simp add: captured_text_def tail_text_def)
  have m: "\<not> list_ex (\<lambda>m. str_in m []) err_markers"
    by (simp add: err_markers_def)
  have "run_one environ world cmd gpu_id (Some log_file) cwd = Inr (classify (returncode b) [])"
    using assms by (simp add: run_one_def tail_text_def)
  with t m show ?thesis
    by (simp add: classify_def)
qed

theorem log_read_failure_witness:
  "run_one demo_environ (\<lambda>_. unreadable_log) demo_cmd 0 (Some ''logs/seed_1.log'') ''/opt/openfold'' = Inr 0 \<and>
   run_one demo_environ (\<lambda>_. unreadable_log\<lparr>returncode := 137\<rparr>) demo_cmd 0 (Some ''logs/seed_1.log'')
     ''/opt/openfold'' = Inr 137"
proof -
  have a: "log_opens unreadable_log" "spawns unreadable_log" "readback unreadable_log = None"
    "returncode unreadable_log = 0" "readback (unreadable_log\<lparr>returncode := 137\<rparr>) = None"
    by (simp_all add: unreadable_log_def clean_exit_def readback_def)
  from log_read_failure [where b = unreadable_log and world = "\<lambda>_. unreadable_log"
      and environ = demo_environ and cmd = demo_cmd and gpu_id = 0 and log_file = "''logs/seed_1.log''"
      and cwd = "''/opt/openfold''"]
    log_read_failure [where b = "unreadable_log\<lparr>returncode := 137\<rparr>"
      and world = "\<lambda>_. unreadable_log\<lparr>returncode := 137\<rparr>"
      and environ = demo_environ and cmd = demo_cmd and gpu_id = 0 and log_file = "''logs/seed_1.log''"
      and cwd = "''/opt/openfold''"] a
  show ?thesis by simp
qed

subsection \<open>The marker scan\<close>



subsection \<open>Facts about the concrete inputs\<close>

lemma demo_run_one_A:
  "run_one demo_environ (demo_world r i) cmd_A g None p = Inr 0"
  by (simp add: run_one_def spawn_args_def demo_world_def clean_exit_def classify_def err_markers_def
      cmd_A_def cmd_B_def)

lemma demo_run_one_B:
  "run_one demo_environ (demo_world r i) cmd_B g None p = Inr 1"
  by (simp add: run_one_def spawn_args_def demo_world_def clean_exit_def classify_def err_markers_def)

lemma demo_cmd_length: "length cmd_A = 4" "length cmd_B = 4"
  by (simp_all add: cmd_A_def cmd_B_def)

lemma demo_round1:
  "run_tasks demo_environ demo_parent (demo_world 0) (demo_rank 0) [task_A, task_B] [0, 1] =
     Inr ([''seed_A''], [(cmd_B, 1, ''seed_B'', None)])"
  by (simp add: run_tasks_def task_A_def task_B_def demo_run_one_A demo_run_one_B as_completed_def
      demo_rank_def demo_cmd_length)

lemma submit_loop_round_futs:
  "submit_loop environ path_parent world rank gpu_ids 0 tasks = Inr futs \<Longrightarrow>
   futs = round_futs environ path_parent world rank gpu_ids tasks"
  by (simp add: submit_loop_Inr round_futs_def)

lemma failed_descriptor:
  assumes "run_tasks environ path_parent world rank tasks gpu_ids = Inr (ok, fail)"
    and "t \<in> set fail"
  shows "\<exists>i < length tasks. t = slot gpu_ids i (tasks ! i)"
proof -
  let ?F = "round_futs environ path_parent world rank gpu_ids tasks"
  from run_tasks_Inr(5) [OF assms(1)] assms(2) have "t \<in> snd ` set ?F"
    by (auto simp: set_as_completed)
  then obtain i where "i < length ?F" and "t = snd (?F ! i)"
    by (auto simp: in_set_conv_nth)
  then show ?thesis
    by (auto simp: nth_round_futs)
qed

subsection \<open>One round partitions its jobs\<close>

text \<open>C2. When \<^verbatim>\<open>run_tasks\<close> returns, the succeeded names together with the names of the
  failed tuples are the submitted names, each as often as it was submitted: every job has
  one verdict, none is lost and none is added. When the submitted names are distinct, as
  the names of the seed directories are, no name is in both lists and none is repeated.\<close>

theorem round_partition:
  assumes "run_tasks environ path_parent world rank tasks gpu_ids = Inr (ok, fail)"
  shows "mset ok + mset (map task_name fail) = mset (map task_name tasks) \<and>
         set ok \<union> set (map task_name fail) = set (map task_name tasks) \<and>
         length ok + length fail = length tasks \<and>
         (distinct (map task_name tasks) \<longrightarrow>
            distinct ok \<and> distinct (map task_name fail) \<and> set ok \<inter> set (map task_name fail) = {})"
proof -
  have m: "mset (ok @ map task_name fail) = mset (map task_name tasks)"
    using run_tasks_names_mset [OF assms] by simp
  have s: "set ok \<union> set (map task_name fail) = set (map task_name tasks)"
    using mset_eq_setD [OF m] by simp
  have l: "length ok + length fail = length tasks"
    using mset_eq_length [OF m] by simp
  have d: "distinct ok \<and> distinct (map task_name fail) \<and> set ok \<inter> set (map task_name fail) = {}"
    if "distinct (map task_name tasks)"
  proof -
    from that mset_eq_imp_distinct_iff [OF m] have "distinct (ok @ map task_name fail)"
      by simp
    then show ?thesis by simp
  qed
  from m s l d show ?thesis by simp
qed

theorem round_partition_witness:
  "distinct (map task_name [task_A, task_B]) \<and>
   run_tasks demo_environ demo_parent (demo_world 0) (demo_rank 0) [task_A, task_B] [0, 1] =
     Inr ([''seed_A''], [(cmd_B, 1, ''seed_B'', None)]) \<and>
   set [''seed_A''] \<inter> set (map task_name [(cmd_B, 1, ''seed_B'', None)]) = {} \<and>
   set [''seed_A''] \<union> set (map task_name [(cmd_B, 1, ''seed_B'', None)]) =
     set (map task_name [task_A, task_B])"
proof -
  have d: "distinct (map task_name [task_A, task_B])"
    by (simp add: task_A_def task_B_def task_name_def)
  from round_partition [OF demo_round1] d demo_round1 show ?thesis
    by blast
qed

subsection \<open>GPU assignment\<close>

lemma submit_loop_core:
  "map task_core tasks' = map task_core tasks \<Longrightarrow>
   submit_loop environ path_parent world rank gpu_ids i tasks' =
   submit_loop environ path_parent world rank gpu_ids i tasks"
proof (induction tasks arbitrary: tasks' i)
  case Nil
  then show ?case by simp
next
  case (Cons t tasks)
  from Cons.prems obtain t' rest where
    ts: "tasks' = t' # rest" and c: "task_core t' = task_core t" and
    r: "map task_core rest = map task_core tasks"
    by (cases tasks') auto
  obtain cmd g n lf where t: "t = (cmd, g, n, lf)"
    by (cases t) auto
  with c obtain g' where t': "t' = (cmd, g', n, lf)"
    by (cases t') (auto simp: task_core_def task_sel)
  have "submit_loop environ path_parent world rank gpu_ids (Suc i) rest =
        submit_loop environ path_parent world rank gpu_ids (Suc i) tasks"
    by (rule Cons.IH [OF r])
  then show ?case
    unfolding ts t t' submit_loop.simps Let_def by (rule arg_cong)
qed

text \<open>C4. With a nonempty GPU list, the job at position \<open>i\<close> of the round's list is stored
  with, and run by \<^verbatim>\<open>run_one\<close> on, the GPU id \<^verbatim>\<open>gpu_ids[i % len(gpu_ids)]\<close>, an index
  within the list. The GPU id stored in the submitted tuple plays no part: task lists
  that differ in that field only give the same futures and the same round result.\<close>

theorem gpu_round_robin:
  assumes "gpu_ids \<noteq> []"
    and "submit_loop environ path_parent world rank gpu_ids 0 tasks = Inr futs"
    and "i < length tasks"
  shows "i mod length gpu_ids < length gpu_ids \<and>
         i < length futs \<and>
         task_gpu (snd (futs ! i)) = gpu_ids ! (i mod length gpu_ids) \<and>
         fut_result (fst (futs ! i)) =
           run_one environ (world i) (task_cmd (tasks ! i)) (gpu_ids ! (i mod length gpu_ids))
             (task_log (tasks ! i)) (path_parent (task_cmd (tasks ! i) ! 1)) \<and>
         (\<forall>tasks'. map task_core tasks' = map task_core tasks \<longrightarrow>
            submit_loop environ path_parent world rank gpu_ids 0 tasks' = Inr futs \<and>
            run_tasks environ path_parent world rank tasks' gpu_ids =
            run_tasks environ path_parent world rank tasks gpu_ids)"
proof -
  from assms(1) have a: "i mod length gpu_ids < length gpu_ids"
    by simp
  from submit_loop_round_futs [OF assms(2)] assms(3) have
    b: "i < length futs" and
    c: "futs ! i = (job_future environ path_parent world rank gpu_ids i (tasks ! i),
                    slot gpu_ids i (tasks ! i))"
    by (simp_all add: nth_round_futs)
  have d: "submit_loop environ path_parent world rank gpu_ids 0 tasks' = Inr futs \<and>
           run_tasks environ path_parent world rank tasks' gpu_ids =
           run_tasks environ path_parent world rank tasks gpu_ids"
    if "map task_core tasks' = map task_core tasks" for tasks'
  proof -
    from submit_loop_core [OF that] have
      "submit_loop environ path_parent world rank gpu_ids 0 tasks' =
       submit_loop environ path_parent world rank gpu_ids 0 tasks" .
    then show ?thesis
      using assms(2) by (simp add: run_tasks_def)
  qed
  from a b c have e: "i mod length gpu_ids < length gpu_ids \<and>
         i < length futs \<and>
         task_gpu (snd (futs ! i)) = gpu_ids ! (i mod length gpu_ids) \<and>
         fut_result (fst (futs ! i)) =
           run_one environ (world i) (task_cmd (tasks ! i)) (gpu_ids ! (i mod length gpu_ids))
             (task_log (tasks ! i)) (path_parent (task_cmd (tasks ! i) ! 1))"
    by (simp add: job_future_def)
  from d have "\<forall>tasks'. map task_core tasks' = map task_core tasks \<longrightarrow>
            submit_loop environ path_parent world rank gpu_ids 0 tasks' = Inr futs \<and>
            run_tasks environ path_parent world rank tasks' gpu_ids =
            run_tasks environ path_parent world rank tasks gpu_ids"
    by blast
  with e show ?thesis
    by blast
qed

theorem gpu_round_robin_witness:
  "submit_loop demo_environ demo_parent (demo_world 0) (demo_rank 0) [4, 6] 0 [task_A, task_B, task_A] =
     Inr [(\<lparr>done_at = 10, fut_result = Inr 0\<rparr>, (cmd_A, 4, ''seed_A'', None)),
          (\<lparr>done_at = 9, fut_result = Inr 1\<rparr>, (cmd_B, 6, ''seed_B'', None)),
          (\<lparr>done_at = 8, fut_result = Inr 0\<rparr>, (cmd_A, 4, ''seed_A'', None))] \<and>
   task_gpu (cmd_A, 4, ''seed_A'', None) = [4, 6] ! (2 mod length [4, 6 :: int])"
proof -
  have s: "submit_loop demo_environ demo_parent (demo_world 0) (demo_rank 0) [4, 6] 0 [task_A, task_B, task_A] =
     Inr [(\<lparr>done_at = 10, fut_result = Inr 0\<rparr>, (cmd_A, 4, ''seed_A'', None)),
          (\<lparr>done_at = 9, fut_result = Inr 1\<rparr>, (cmd_B, 6, ''seed_B'', None)),
          (\<lparr>done_at = 8, fut_result = Inr 0\<rparr>, (cmd_A, 4, ''seed_A'', None))]"
    by (simp add: task_A_def task_B_def demo_run_one_A demo_run_one_B demo_rank_def demo_cmd_length)
  have g: "[4, 6 :: int] \<noteq> []" and i: "2 < length [task_A, task_B, task_A]"
    by simp_all
  from gpu_round_robin [OF g s i] s show ?thesis
    by simp
qed

subsection \<open>What a retry round reuses\<close>

lemma demo_round2:
  "run_tasks demo_environ demo_parent (demo_world r) (demo_rank r) [(cmd_B, g, ''seed_B'', None)] [0, 1] =
     Inr ([], [(cmd_B, 0, ''seed_B'', None)])"
  by (simp add: run_tasks_def demo_run_one_B as_completed_def demo_rank_def demo_cmd_length)

lemma demo_driver:
  "driver demo_environ demo_parent demo_world demo_rank [task_A, task_B] [0, 1] 1 =
     ([([task_A, task_B], Inr ([''seed_A''], [(cmd_B, 1, ''seed_B'', None)])),
       ([(cmd_B, 1, ''seed_B'', None)], Inr ([], [(cmd_B, 0, ''seed_B'', None)]))],
      Inr ([''seed_A''], [(cmd_B, 0, ''seed_B'', None)]))"
  by (simp add: driver_def demo_round1 retry_loop.simps demo_round2)

text \<open>C5, as stated, fails. Jobs A and B run on the GPUs 0 and 1; A succeeds and B fails,
  and the failed tuple of B carries GPU 1. In the retry round B is the only job, at
  position 0, and \<^verbatim>\<open>run_one\<close> is called for it with GPU 0: the retried job does not run
  on the GPU of its failed attempt.\<close>

theorem retry_gpu_counterexample:
  "run_tasks demo_environ demo_parent (demo_world 0) (demo_rank 0) [task_A, task_B] [0, 1] =
     Inr ([''seed_A''], [(cmd_B, 1, ''seed_B'', None)]) \<and>
   submit_loop demo_environ demo_parent (demo_world 1) (demo_rank 1) [0, 1] 0
       [(cmd_B, 1, ''seed_B'', None)] =
     Inr [(\<lparr>done_at = 10,
            fut_result = run_one demo_environ (demo_world 1 0) cmd_B 0 None (demo_parent (cmd_B ! 1))\<rparr>,
           (cmd_B, 0, ''seed_B'', None))] \<and>
   task_gpu (cmd_B, 0, ''seed_B'', None) \<noteq> task_gpu (cmd_B, 1, ''seed_B'', None) \<and>
   driver demo_environ demo_parent demo_world demo_rank [task_A, task_B] [0, 1] 1 =
     ([([task_A, task_B], Inr ([''seed_A''], [(cmd_B, 1, ''seed_B'', None)])),
       ([(cmd_B, 1, ''seed_B'', None)], Inr ([], [(cmd_B, 0, ''seed_B'', None)]))],
      Inr ([''seed_A''], [(cmd_B, 0, ''seed_B'', None)]))"
  by (simp add: demo_round1 demo_driver demo_rank_def demo_cmd_length task_gpu_def)

lemma run_tasks_Inr_submit:
  assumes "run_tasks environ path_parent world rank tasks gpu_ids = Inr (ok, fail)"
  shows "\<forall>t \<in> set fail. 2 \<le> length (task_cmd t)"
proof
  fix t assume "t \<in> set fail"
  from failed_descriptor [OF assms this] obtain i where
    "i < length tasks" and "t = slot gpu_ids i (tasks ! i)"
    by blast
  with run_tasks_Inr(2) [OF assms] show "2 \<le> length (task_cmd t)"
    by simp
qed

text \<open>C5, amended. Every failed tuple a round returns is the command, name and log path
  of a submitted job together with the GPU id that round assigned to it. A retry round
  over the failed list submits every one of them (no command is too short), with the
  same command, name, log path and working directory; the GPU id it stores and passes to
  \<^verbatim>\<open>run_one\<close> is \<^verbatim>\<open>gpu_ids[j % len(gpu_ids)]\<close> for the position \<open>j\<close> in the failed list, not
  the one in the tuple.\<close>

theorem retry_reuses_descriptor:
  assumes "run_tasks environ path_parent world rank tasks gpu_ids = Inr (ok, fail)"
  shows "(\<forall>t \<in> set fail. \<exists>i < length tasks.
            t = (task_cmd (tasks ! i), gpu_ids ! (i mod length gpu_ids),
                 task_name (tasks ! i), task_log (tasks ! i))) \<and>
         (\<exists>futs. submit_loop environ path_parent world' rank' gpu_ids 0 fail = Inr futs \<and>
            length futs = length fail \<and>
            (\<forall>j < length fail.
               snd (futs ! j) =
                 (task_cmd (fail ! j), gpu_ids ! (j mod length gpu_ids),
                  task_name (fail ! j), task_log (fail ! j)) \<and>
               fut_result (fst (futs ! j)) =
                 run_one environ (world' j) (task_cmd (fail ! j)) (gpu_ids ! (j mod length gpu_ids))
                   (task_log (fail ! j)) (path_parent (task_cmd (fail ! j) ! 1))))"
proof -
  have a: "\<forall>t \<in> set fail. \<exists>i < length tasks.
            t = (task_cmd (tasks ! i), gpu_ids ! (i mod length gpu_ids),
                 task_name (tasks ! i), task_log (tasks ! i))"
    using failed_descriptor [OF assms] by (simp add: slot_def)
  from submit_loop_total [OF run_tasks_Inr_submit [OF assms]] obtain futs where
    s: "submit_loop environ path_parent world' rank' gpu_ids 0 fail = Inr futs"
    by blast
  from submit_loop_round_futs [OF s] have
    f: "futs = round_futs environ path_parent world' rank' gpu_ids fail" .
  have l: "length futs = length fail"
    by (simp add: f)
  have n: "snd (futs ! j) =
                 (task_cmd (fail ! j), gpu_ids ! (j mod length gpu_ids),
                  task_name (fail ! j), task_log (fail ! j)) \<and>
               fut_result (fst (futs ! j)) =
                 run_one environ (world' j) (task_cmd (fail ! j)) (gpu_ids ! (j mod length gpu_ids))
                   (task_log (fail ! j)) (path_parent (task_cmd (fail ! j) ! 1))"
    if "j < length fail" for j
    using that by (simp add: f nth_round_futs slot_def job_future_def)
  from a s l n show ?thesis
    by blast
qed

theorem retry_reuses_descriptor_witness:
  "submit_loop demo_environ demo_parent (demo_world 1) (demo_rank 1) [0, 1] 0
       [(cmd_B, 1, ''seed_B'', None)] =
     Inr [(\<lparr>done_at = 10, fut_result = Inr 1\<rparr>, (cmd_B, 0, ''seed_B'', None))]"
proof -
  from retry_reuses_descriptor [OF demo_round1, of "demo_world 1" "demo_rank 1"]
  obtain futs where
    s: "submit_loop demo_environ demo_parent (demo_world 1) (demo_rank 1) [0, 1] 0
          [(cmd_B, 1, ''seed_B'', None)] = Inr futs"
    by blast
  then show ?thesis
    by (simp add: demo_run_one_B demo_rank_def demo_cmd_length)
qed

subsection \<open>A child that cannot be started\<close>

lemma run_one_not_spawned:
  assumes "b = world (spawn_args environ cmd gpu_id log_file cwd)" and "\<not> spawns b"
  shows "run_one environ world cmd gpu_id log_file cwd =
           Inl (if log_file \<noteq> None \<and> \<not> log_opens b then open_error b else spawn_error b)"
  using assms by (cases log_file) (simp_all add: run_one_def Let_def)

lemma run_tasks_raises:
  assumes "i < length tasks"
    and "isl (fut_result (job_future environ path_parent world rank gpu_ids i (tasks ! i)))"
  shows "\<exists>e. run_tasks environ path_parent world rank tasks gpu_ids = Inl e \<and>
             (gpu_ids \<noteq> [] \<and> (\<forall>t \<in> set tasks. 2 \<le> length (task_cmd t)) \<longrightarrow>
                (\<exists>j < length tasks.
                   run_one environ (world j) (task_cmd (tasks ! j)) (gpu_ids ! (j mod length gpu_ids))
                     (task_log (tasks ! j)) (path_parent (task_cmd (tasks ! j) ! 1)) = Inl e))"
proof (cases "run_tasks environ path_parent world rank tasks gpu_ids")
  case (Inr r)
  obtain ok fail where "r = (ok, fail)"
    by (cases r) auto
  with Inr have run: "run_tasks environ path_parent world rank tasks gpu_ids = Inr (ok, fail)"
    by simp
  let ?F = "round_futs environ path_parent world rank gpu_ids tasks"
  from assms(1) have "?F ! i \<in> set ?F"
    by simp
  with run_tasks_Inr(3) [OF run] have "\<not> isl (fut_result (fst (?F ! i)))"
    by blast
  with assms show ?thesis
    by (simp add: nth_round_futs)
next
  case (Inl e)
  have "\<exists>j < length tasks.
          run_one environ (world j) (task_cmd (tasks ! j)) (gpu_ids ! (j mod length gpu_ids))
            (task_log (tasks ! j)) (path_parent (task_cmd (tasks ! j) ! 1)) = Inl e"
    if g: "gpu_ids \<noteq> []" and l: "\<forall>t \<in> set tasks. 2 \<le> length (task_cmd t)"
  proof -
    from submit_loop_total [OF l] obtain futs where
      s: "submit_loop environ path_parent world rank gpu_ids 0 tasks = Inr futs"
      by blast
    with Inl g have "collect (as_completed futs) [] [] = Inl e"
      by (simp add: run_tasks_def)
    from collect_Inl [OF this] obtain ft where
      "ft \<in> set futs" and r: "fut_result (fst ft) = Inl e"
      by (auto simp: set_as_completed)
    with submit_loop_round_futs [OF s] obtain j where "j < length tasks" and
      "ft = (job_future environ path_parent world rank gpu_ids j (tasks ! j), slot gpu_ids j (tasks ! j))"
      by (auto simp: in_set_conv_nth nth_round_futs)
    with r show ?thesis
      by (auto simp: job_future_def)
  qed
  with Inl show ?thesis by blast
qed

text \<open>C8. When \<^verbatim>\<open>Popen\<close> fails for the job at position \<open>i\<close> of round \<open>r\<close>,
  \<^verbatim>\<open>run_one\<close> raises instead of returning a code (what \<^verbatim>\<open>Popen\<close> raised, unless opening
  the log file for writing has failed before), and \<^verbatim>\<open>run_tasks\<close> raises instead of
  returning a round result: an exception that \<^verbatim>\<open>run_one\<close> raised for a job of the round,
  unless the GPU list is empty or a command too short, which raise earlier. In the first
  round the driver ends with that exception after this one round; in a retry round the
  loop ends with it at once. The job is in no failed list and no further round is run.\<close>

theorem spawn_failure_crashes:
  assumes "i < length tasks" and "t = tasks ! i" and "g = gpu_ids ! (i mod length gpu_ids)"
    and "b = world r i (spawn_args environ (task_cmd t) g (task_log t) (path_parent (task_cmd t ! 1)))"
    and "\<not> spawns b"
  shows "run_one environ (world r i) (task_cmd t) g (task_log t) (path_parent (task_cmd t ! 1)) =
           Inl (if task_log t \<noteq> None \<and> \<not> log_opens b then open_error b else spawn_error b) \<and>
         (\<exists>e. run_tasks environ path_parent (world r) (rank r) tasks gpu_ids = Inl e \<and>
            (gpu_ids \<noteq> [] \<and> (\<forall>t \<in> set tasks. 2 \<le> length (task_cmd t)) \<longrightarrow>
               (\<exists>j < length tasks.
                  run_one environ (world r j) (task_cmd (tasks ! j)) (gpu_ids ! (j mod length gpu_ids))
                    (task_log (tasks ! j)) (path_parent (task_cmd (tasks ! j) ! 1)) = Inl e)) \<and>
            (r = 0 \<longrightarrow>
               driver environ path_parent world rank tasks gpu_ids max_retries =
                 ([(tasks, Inl e)], Inl e)) \<and>
            (\<forall>attempts ok hist. r = Suc attempts \<and> int attempts < max_retries \<longrightarrow>
               retry_loop environ path_parent world rank gpu_ids max_retries attempts ok tasks hist =
                 (hist @ [(tasks, Inl e)], Inl e)))"
proof -
  have a: "run_one environ (world r i) (task_cmd t) g (task_log t) (path_parent (task_cmd t ! 1)) =
           Inl (if task_log t \<noteq> None \<and> \<not> log_opens b then open_error b else spawn_error b)"
    using assms(4,5) by (rule run_one_not_spawned)
  then have "isl (fut_result (job_future environ path_parent (world r) (rank r) gpu_ids i (tasks ! i)))"
    using assms(2,3) by (simp add: job_future_def)
  from run_tasks_raises [OF assms(1) this] obtain e where
    e: "run_tasks environ path_parent (world r) (rank r) tasks gpu_ids = Inl e" and
    o: "gpu_ids \<noteq> [] \<and> (\<forall>t \<in> set tasks. 2 \<le> length (task_cmd t)) \<longrightarrow>
               (\<exists>j < length tasks.
                  run_one environ (world r j) (task_cmd (tasks ! j)) (gpu_ids ! (j mod length gpu_ids))
                    (task_log (tasks ! j)) (path_parent (task_cmd (tasks ! j) ! 1)) = Inl e)"
    by blast
  have d: "driver environ path_parent world rank tasks gpu_ids max_retries = ([(tasks, Inl e)], Inl e)"
    if "r = 0"
    using e that by (simp add: driver_def)
  from assms(1) have ne: "tasks \<noteq> []"
    by auto
  have l: "retry_loop environ path_parent world rank gpu_ids max_retries attempts ok tasks hist =
                 (hist @ [(tasks, Inl e)], Inl e)"
    if "r = Suc attempts \<and> int attempts < max_retries" for attempts ok hist
    using e that ne by (subst retry_loop.simps) simp
  from a e o d l show ?thesis
    by blast
qed

theorem spawn_failure_crashes_witness:
  "\<not> spawns (broken_world 0 1 (spawn_args demo_environ cmd_B 1 None (demo_parent (cmd_B ! 1)))) \<and>
   run_one demo_environ (broken_world 0 1) cmd_B 1 None (demo_parent (cmd_B ! 1)) = Inl OSError \<and>
   driver demo_environ demo_parent broken_world demo_rank [task_A, task_B] [0, 1] 3 =
     ([([task_A, task_B], Inl OSError)], Inl OSError)"
proof -
  have i: "1 < length [task_A, task_B]" and t: "task_B = [task_A, task_B] ! 1"
    and g: "(1::int) = [0, 1] ! (1 mod length [0, 1 :: int])"
    by simp_all
  have c: "task_cmd task_B = cmd_B" "task_log task_B = None"
    "task_cmd task_A = cmd_A" "task_log task_A = None" "length cmd_A = 4"
    by (simp_all add: task_B_def task_A_def task_sel cmd_A_def)
  have w: "broken_world 0 1 (spawn_args demo_environ (task_cmd task_B) 1 (task_log task_B)
             (demo_parent (task_cmd task_B ! 1))) = no_python"
    by (simp add: c broken_world_def spawn_args_def)
  have s: "\<not> spawns no_python" "spawn_error no_python = OSError"
    by (simp_all add: no_python_def clean_exit_def)
  have a: "run_one demo_environ (broken_world 0 0) cmd_A 0 None (demo_parent (cmd_A ! 1)) = Inr 0"
    by (simp add: run_one_def spawn_args_def broken_world_def demo_world_def clean_exit_def
        classify_def err_markers_def cmd_A_def cmd_B_def)
  from spawn_failure_crashes [where tasks = "[task_A, task_B]" and i = 1 and t = task_B and g = 1
      and gpu_ids = "[0, 1]" and world = broken_world and r = 0 and environ = demo_environ
      and path_parent = demo_parent and rank = demo_rank and max_retries = 3 and b = no_python,
      OF i t g w [symmetric] s(1)]
  obtain e where
    r1: "run_one demo_environ (broken_world 0 1) (task_cmd task_B) 1 (task_log task_B)
           (demo_parent (task_cmd task_B ! 1)) = Inl (spawn_error no_python)" and
    r2: "\<exists>j < length [task_A, task_B].
           run_one demo_environ (broken_world 0 j) (task_cmd ([task_A, task_B] ! j))
             ([0, 1] ! (j mod length [0, 1 :: int])) (task_log ([task_A, task_B] ! j))
             (demo_parent (task_cmd ([task_A, task_B] ! j) ! 1)) = Inl e" and
    r3: "driver demo_environ demo_parent broken_world demo_rank [task_A, task_B] [0, 1] 3 =
           ([([task_A, task_B], Inl e)], Inl e)"
    using c demo_cmd_length by auto
  from r2 obtain j where "j < length [task_A, task_B]" and
    rj: "run_one demo_environ (broken_world 0 j) (task_cmd ([task_A, task_B] ! j))
             ([0, 1] ! (j mod length [0, 1 :: int])) (task_log ([task_A, task_B] ! j))
             (demo_parent (task_cmd ([task_A, task_B] ! j) ! 1)) = Inl e"
    by blast
  then have "j = 0 \<or> j = 1"
    by auto
  with rj r1 a c s have "e = OSError"
    by auto
  with r1 r3 w s c show ?thesis
    by simp
qed

subsection \<open>The retry loop\<close>

lemma sole_distinct:
  assumes "distinct (map task_name ts)" and "t \<in> set ts"
  shows "sole (task_name t) (task_cmd t) ts"
proof -
  from assms have "filter (\<lambda>u. task_name u = task_name t) ts = [t]"
  proof (induction ts)
    case Nil
    then show ?case by simp
  next
    case (Cons u ts)
    show ?case
    proof (cases "u = t")
      case True
      from Cons.prems(1) have "task_name u \<notin> task_name ` set ts"
        by simp
      with True have "\<forall>v \<in> set ts. task_name v \<noteq> task_name t"
        by (metis imageI)
      then have "filter (\<lambda>u. task_name u = task_name t) ts = []"
        by (simp add: filter_empty_conv)
      with True show ?thesis by simp
    next
      case False
      with Cons.prems have "t \<in> set ts" and "task_name u \<noteq> task_name t" and
        "distinct (map task_name ts)"
        by auto
      with Cons.IH show ?thesis by simp
    qed
  qed
  then show ?thesis
    by (simp add: sole_def)
qed

lemma sole_cmd:
  assumes "sole n c ts" and "t \<in> set ts" and "task_name t = n"
  shows "task_cmd t = c"
proof -
  from assms(2,3) have "task_cmd t \<in> set (map task_cmd (filter (\<lambda>t. task_name t = n) ts))"
    by auto
  with assms(1) show ?thesis
    by (simp add: sole_def)
qed

lemma sole_count: "sole n c ts \<Longrightarrow> length (filter (\<lambda>t. task_name t = n) ts) = 1"
  using length_map [of task_cmd "filter (\<lambda>t. task_name t = n) ts"] by (simp add: sole_def)

lemma sole_member: "sole n c ts \<Longrightarrow> n \<in> set (map task_name ts) \<and> ts \<noteq> []"
proof -
  assume "sole n c ts"
  then have "filter (\<lambda>t. task_name t = n) ts \<noteq> []"
    by (auto simp: sole_def)
  then obtain t where "t \<in> set ts" and "task_name t = n"
    by (auto simp: filter_empty_conv)
  then show ?thesis by auto
qed

lemma round_futs_cmd_name:
  "map (\<lambda>ft. (task_cmd (snd ft), task_name (snd ft)))
     (round_futs environ path_parent world rank gpu_ids tasks) =
   map (\<lambda>t. (task_cmd t, task_name t)) tasks"
  by (rule nth_equalityI) (simp_all add: nth_round_futs)

lemma cmds_named_via_pairs:
  "map (\<lambda>x. fst (h x)) (filter (\<lambda>x. snd (h x) = n) xs) =
   map fst (filter (\<lambda>p. snd p = n) (map h xs))"
  by (induction xs) auto

lemma doomed_not_passed:
  assumes "sole n c tasks" and "doomed environ world c"
    and "ft \<in> set (round_futs environ path_parent (world r) rank gpu_ids tasks)"
    and "task_name (snd ft) = n"
  shows "\<not> passed ft"
proof -
  let ?F = "round_futs environ path_parent (world r) rank gpu_ids tasks"
  from assms(3) obtain j where j: "j < length tasks" and
    ft: "ft = (job_future environ path_parent (world r) rank gpu_ids j (tasks ! j),
               slot gpu_ids j (tasks ! j))"
    by (auto simp: in_set_conv_nth nth_round_futs)
  with assms(4) have "task_name (tasks ! j) = n"
    by simp
  with sole_cmd [OF assms(1)] j have c: "task_cmd (tasks ! j) = c"
    by simp
  from assms(2) obtain ret where
    "run_one environ (world r j) c (gpu_ids ! (j mod length gpu_ids)) (task_log (tasks ! j))
       (path_parent (c ! 1)) = Inr ret" and "ret \<noteq> 0"
    unfolding doomed_def by blast
  with ft c show ?thesis
    by (simp add: passed_def job_future_def)
qed

lemma run_tasks_doomed:
  assumes run: "run_tasks environ path_parent (world r) rank tasks gpu_ids = Inr (ok, fail)"
    and sole: "sole n c tasks" and doomed: "doomed environ world c"
  shows "sole n c fail" and "n \<notin> set ok"
proof -
  let ?F = "round_futs environ path_parent (world r) rank gpu_ids tasks"
  let ?X = "as_completed ?F"
  let ?h = "\<lambda>ft. (task_cmd (snd ft), task_name (snd ft))"
  have np: "\<not> passed ft" if "ft \<in> set ?X" and "task_name (snd ft) = n" for ft
    using doomed_not_passed [OF sole doomed _ that(2)] that(1) by (simp add: set_as_completed)
  have "map task_cmd (filter (\<lambda>t. task_name t = n) fail) =
        map (\<lambda>ft. task_cmd (snd ft)) (filter (\<lambda>ft. task_name (snd ft) = n \<and> \<not> passed ft) ?X)"
    by (simp add: run_tasks_Inr(5) [OF run] filter_map comp_def conj_commute)
  also have "\<dots> = map (\<lambda>ft. task_cmd (snd ft)) (filter (\<lambda>ft. task_name (snd ft) = n) ?X)"
    by (rule arg_cong [where f = "map _"], rule filter_cong) (auto dest: np)
  finally have "mset (map task_cmd (filter (\<lambda>t. task_name t = n) fail)) =
        mset (map (\<lambda>ft. task_cmd (snd ft)) (filter (\<lambda>ft. task_name (snd ft) = n) ?F))"
    by (simp add: mset_as_completed)
  also have "map (\<lambda>ft. task_cmd (snd ft)) (filter (\<lambda>ft. task_name (snd ft) = n) ?F) =
        map fst (filter (\<lambda>p. snd p = n) (map ?h ?F))"
    using cmds_named_via_pairs [of ?h n ?F] by simp
  also have "\<dots> = map fst (filter (\<lambda>p. snd p = n) (map (\<lambda>t. (task_cmd t, task_name t)) tasks))"
    by (simp only: round_futs_cmd_name)
  also have "\<dots> = map task_cmd (filter (\<lambda>t. task_name t = n) tasks)"
    using cmds_named_via_pairs [of "\<lambda>t. (task_cmd t, task_name t)" n tasks] by simp
  finally have "mset (map task_cmd (filter (\<lambda>t. task_name t = n) fail)) =
        mset (map task_cmd (filter (\<lambda>t. task_name t = n) tasks))" .
  also from sole have "\<dots> = mset [c]"
    by (simp only: sole_def)
  finally have "mset (map task_cmd (filter (\<lambda>t. task_name t = n) fail)) = {#c#}"
    by simp
  then show "sole n c fail"
    unfolding sole_def by (simp only: mset_single_iff)
  show "n \<notin> set ok"
  proof
    assume "n \<in> set ok"
    then obtain ft where "ft \<in> set ?X" and "passed ft" and "task_name (snd ft) = n"
      by (auto simp: run_tasks_Inr(4) [OF run])
    with np show False by blast
  qed
qed

lemma retry_loop_stop:
  assumes "\<not> (fail \<noteq> [] \<and> int attempts < max_retries)"
  shows "retry_loop environ path_parent world rank gpu_ids max_retries attempts ok fail hist =
           (hist, Inr (ok, fail))"
proof -
  have "retry_loop environ path_parent world rank gpu_ids max_retries attempts ok fail hist =
     (if fail \<noteq> [] \<and> int attempts < max_retries then
        (case run_tasks environ path_parent (world (Suc attempts)) (rank (Suc attempts)) fail gpu_ids of
           Inl e \<Rightarrow> (hist @ [(fail, Inl e)], Inl e)
         | Inr (ok2, fail2) \<Rightarrow>
             retry_loop environ path_parent world rank gpu_ids max_retries (Suc attempts)
               (ok @ ok2) fail2 (hist @ [(fail, Inr (ok2, fail2))]))
      else (hist, Inr (ok, fail)))"
    by (rule retry_loop.simps)
  then show ?thesis
    by (simp only: assms if_False)
qed

lemma retry_loop_crash:
  assumes "fail \<noteq> [] \<and> int attempts < max_retries"
    and "run_tasks environ path_parent (world (Suc attempts)) (rank (Suc attempts)) fail gpu_ids = Inl e"
  shows "retry_loop environ path_parent world rank gpu_ids max_retries attempts ok fail hist =
           (hist @ [(fail, Inl e)], Inl e)"
proof -
  have "retry_loop environ path_parent world rank gpu_ids max_retries attempts ok fail hist =
     (if fail \<noteq> [] \<and> int attempts < max_retries then
        (case run_tasks environ path_parent (world (Suc attempts)) (rank (Suc attempts)) fail gpu_ids of
           Inl e \<Rightarrow> (hist @ [(fail, Inl e)], Inl e)
         | Inr (ok2, fail2) \<Rightarrow>
             retry_loop environ path_parent world rank gpu_ids max_retries (Suc attempts)
               (ok @ ok2) fail2 (hist @ [(fail, Inr (ok2, fail2))]))
      else (hist, Inr (ok, fail)))"
    by (rule retry_loop.simps)
  with assms show ?thesis
    by simp
qed

lemma retry_loop_step:
  assumes "fail \<noteq> [] \<and> int attempts < max_retries"
    and "run_tasks environ path_parent (world (Suc attempts)) (rank (Suc attempts)) fail gpu_ids =
           Inr (ok2, fail2)"
  shows "retry_loop environ path_parent world rank gpu_ids max_retries attempts ok fail hist =
           retry_loop environ path_parent world rank gpu_ids max_retries (Suc attempts)
             (ok @ ok2) fail2 (hist @ [(fail, Inr (ok2, fail2))])"
proof -
  have "retry_loop environ path_parent world rank gpu_ids max_retries attempts ok fail hist =
     (if fail \<noteq> [] \<and> int attempts < max_retries then
        (case run_tasks environ path_parent (world (Suc attempts)) (rank (Suc attempts)) fail gpu_ids of
           Inl e \<Rightarrow> (hist @ [(fail, Inl e)], Inl e)
         | Inr (ok2, fail2) \<Rightarrow>
             retry_loop environ path_parent world rank gpu_ids max_retries (Suc attempts)
               (ok @ ok2) fail2 (hist @ [(fail, Inr (ok2, fail2))]))
      else (hist, Inr (ok, fail)))"
    by (rule retry_loop.simps)
  with assms show ?thesis
    by simp
qed

lemma budget_step:
  "int attempts < max_retries \<Longrightarrow>
   nat (max_retries - int attempts) = Suc (nat (max_retries - int (Suc attempts)))"
  by arith

lemma retry_loop_length:
  "length (fst (retry_loop environ path_parent world rank gpu_ids max_retries attempts ok fail hist))
     \<le> length hist + nat (max_retries - int attempts)"
proof (induction environ path_parent world rank gpu_ids max_retries attempts ok fail hist
       rule: retry_loop.induct)
  case (1 environ path_parent world rank gpu_ids max_retries attempts ok fail hist)
  show ?case
  proof (cases "fail \<noteq> [] \<and> int attempts < max_retries")
    case False
    then show ?thesis
      by (simp add: retry_loop_stop)
  next
    case True
    show ?thesis
    proof (cases "run_tasks environ path_parent (world (Suc attempts)) (rank (Suc attempts)) fail gpu_ids")
      case (Inl e)
      from True have "int attempts < max_retries"
        by simp
      from budget_step [OF this] show ?thesis
        by (simp add: retry_loop_crash [where world = world and rank = rank, OF True Inl])
    next
      case (Inr p)
      obtain ok2 fail2 where p: "p = (ok2, fail2)"
        by (cases p) auto
      from True have "int attempts < max_retries"
        by simp
      from "1.IH" [OF True Inr p [symmetric]] budget_step [OF this] show ?thesis
        by (simp add: retry_loop_step [where world = world and rank = rank, OF True Inr [unfolded p]])
    qed
  qed
qed

lemma retry_loop_exit:
  "retry_loop environ path_parent world rank gpu_ids max_retries attempts ok fail hist =
     (hist', Inr (ok', fail')) \<Longrightarrow>
   fail' = [] \<or> length hist' = length hist + nat (max_retries - int attempts)"
proof (induction environ path_parent world rank gpu_ids max_retries attempts ok fail hist
       rule: retry_loop.induct)
  case (1 environ path_parent world rank gpu_ids max_retries attempts ok fail hist)
  show ?case
  proof (cases "fail \<noteq> [] \<and> int attempts < max_retries")
    case False
    with "1.prems" show ?thesis
      by (auto simp: retry_loop_stop)
  next
    case True
    show ?thesis
    proof (cases "run_tasks environ path_parent (world (Suc attempts)) (rank (Suc attempts)) fail gpu_ids")
      case (Inl e)
      with "1.prems" show ?thesis
        by (simp add: retry_loop_crash [where world = world and rank = rank, OF True Inl])
    next
      case (Inr p)
      obtain ok2 fail2 where p: "p = (ok2, fail2)"
        by (cases p) auto
      from "1.prems"(1) have r: "retry_loop environ path_parent world rank gpu_ids max_retries (Suc attempts)
             (ok @ ok2) fail2 (hist @ [(fail, Inr (ok2, fail2))]) = (hist', Inr (ok', fail'))"
        by (simp add: retry_loop_step [where world = world and rank = rank, OF True Inr [unfolded p]])
      from True have "int attempts < max_retries"
        by simp
      from "1.IH" [OF True Inr p [symmetric] r] budget_step [OF this] show ?thesis
        by auto
    qed
  qed
qed

text \<open>The job named \<open>n\<close> with the doomed command \<open>c\<close> stays in the failed list and is
  handed to every one of the rounds the budget allows.\<close>

lemma attempts_of_snoc:
  "attempts_of n (hist @ [(ts, res)]) =
   attempts_of n hist + length (filter (\<lambda>t. task_name t = n) ts)"
  by (simp add: attempts_of_def)

lemma retry_loop_doomed:
  "retry_loop environ path_parent world rank gpu_ids max_retries attempts ok fail hist =
     (hist', Inr (ok', fail')) \<Longrightarrow>
   sole n c fail \<Longrightarrow> doomed environ world c \<Longrightarrow> n \<notin> set ok \<Longrightarrow>
   attempts_of n hist' = attempts_of n hist + nat (max_retries - int attempts) \<and>
   sole n c fail' \<and> n \<notin> set ok'"
proof (induction environ path_parent world rank gpu_ids max_retries attempts ok fail hist
       rule: retry_loop.induct)
  case (1 environ path_parent world rank gpu_ids max_retries attempts ok fail hist)
  from sole_member [OF "1.prems"(2)] have ne: "fail \<noteq> []"
    by simp
  show ?case
  proof (cases "fail \<noteq> [] \<and> int attempts < max_retries")
    case False
    with ne "1.prems" show ?thesis
      by (auto simp: retry_loop_stop)
  next
    case True
    show ?thesis
    proof (cases "run_tasks environ path_parent (world (Suc attempts)) (rank (Suc attempts)) fail gpu_ids")
      case (Inl e)
      with "1.prems" show ?thesis
        by (simp add: retry_loop_crash [where world = world and rank = rank, OF True Inl])
    next
      case (Inr p)
      obtain ok2 fail2 where p: "p = (ok2, fail2)"
        by (cases p) auto
      from Inr p have run: "run_tasks environ path_parent (world (Suc attempts)) (rank (Suc attempts))
          fail gpu_ids = Inr (ok2, fail2)"
        by simp
      from "1.prems"(1) have r: "retry_loop environ path_parent world rank gpu_ids max_retries (Suc attempts)
             (ok @ ok2) fail2 (hist @ [(fail, Inr (ok2, fail2))]) = (hist', Inr (ok', fail'))"
        by (simp add: retry_loop_step [where world = world and rank = rank, OF True run])
      from run_tasks_doomed [OF run "1.prems"(2,3)] have
        s: "sole n c fail2" and o: "n \<notin> set ok2"
        by simp_all
      from o "1.prems"(4) have "n \<notin> set (ok @ ok2)"
        by simp
      from True have "int attempts < max_retries"
        by simp
      from "1.IH" [OF True Inr p [symmetric] r s "1.prems"(3) \<open>n \<notin> set (ok @ ok2)\<close>]
        budget_step [OF this] sole_count [OF "1.prems"(2)]
      show ?thesis
        by (simp add: attempts_of_snoc)
    qed
  qed
qed

lemma dropped_snoc:
  "dropped (hist @ [r]) \<longleftrightarrow>
     dropped hist \<and>
     (\<forall>q \<in> set hist. \<forall>ok fail. snd q = Inr (ok, fail) \<longrightarrow>
        set ok \<inter> set (map task_name (fst r)) = {})"
proof
  assume d: "dropped (hist @ [r])"
  have "dropped hist"
    unfolding dropped_def
  proof (intro allI impI)
    fix k' k ok fail
    assume "k' < length hist" and "k < k'" and "snd (hist ! k) = Inr (ok, fail)"
    with d [unfolded dropped_def, rule_format, of k' k ok fail]
    show "set ok \<inter> set (map task_name (fst (hist ! k'))) = {}"
      by (simp add: nth_append)
  qed
  moreover have "set ok \<inter> set (map task_name (fst r)) = {}"
    if "q \<in> set hist" and "snd q = Inr (ok, fail)" for q ok fail
  proof -
    from that(1) obtain k where "k < length hist" and "hist ! k = q"
      by (auto simp: in_set_conv_nth)
    with d [unfolded dropped_def, rule_format, of "length hist" k ok fail] that(2)
    show ?thesis
      by (simp add: nth_append)
  qed
  ultimately show "dropped hist \<and>
     (\<forall>q \<in> set hist. \<forall>ok fail. snd q = Inr (ok, fail) \<longrightarrow>
        set ok \<inter> set (map task_name (fst r)) = {})"
    by blast
next
  assume a: "dropped hist \<and>
     (\<forall>q \<in> set hist. \<forall>ok fail. snd q = Inr (ok, fail) \<longrightarrow>
        set ok \<inter> set (map task_name (fst r)) = {})"
  show "dropped (hist @ [r])"
    unfolding dropped_def
  proof (intro allI impI)
    fix k' k ok fail
    assume k': "k' < length (hist @ [r])" and k: "k < k'"
      and s: "snd ((hist @ [r]) ! k) = Inr (ok, fail)"
    show "set ok \<inter> set (map task_name (fst ((hist @ [r]) ! k'))) = {}"
    proof (cases "k' < length hist")
      case True
      with k s a [THEN conjunct1, unfolded dropped_def, rule_format, of k' k ok fail]
      show ?thesis
        by (simp add: nth_append)
    next
      case False
      with k' have e: "k' = length hist"
        by simp
      with k have "hist ! k \<in> set hist" and "(hist @ [r]) ! k = hist ! k"
        by (simp_all add: nth_append)
      with s a e show ?thesis
        by (auto simp: nth_append)
    qed
  qed
qed

lemma run_tasks_names:
  assumes "run_tasks environ path_parent world rank tasks gpu_ids = Inr (ok, fail)"
  shows "set ok \<union> set (map task_name fail) = set (map task_name tasks)"
    and "distinct (map task_name tasks) \<Longrightarrow> distinct (ok @ map task_name fail)"
proof -
  have m: "mset (ok @ map task_name fail) = mset (map task_name tasks)"
    using run_tasks_names_mset [OF assms] by simp
  from mset_eq_setD [OF m] show "set ok \<union> set (map task_name fail) = set (map task_name tasks)"
    by simp
  from mset_eq_imp_distinct_iff [OF m]
  show "distinct (map task_name tasks) \<Longrightarrow> distinct (ok @ map task_name fail)"
    by simp
qed

lemma loop_inv_first:
  assumes "run_tasks environ path_parent world rank tasks gpu_ids = Inr (ok, fail)"
    and "distinct (map task_name tasks)"
  shows "loop_inv [(tasks, Inr (ok, fail))] ok fail"
proof -
  from run_tasks_names(2) [OF assms] have "distinct (ok @ map task_name fail)" .
  then show ?thesis
    by (simp add: loop_inv_def dropped_def)
qed

lemma loop_inv_step:
  assumes inv: "loop_inv hist ok fail"
    and run: "run_tasks environ path_parent world rank fail gpu_ids = Inr (ok2, fail2)"
  shows "loop_inv (hist @ [(fail, Inr (ok2, fail2))]) (ok @ ok2) fail2"
proof -
  from inv have df: "distinct (map task_name fail)"
    by (simp add: loop_inv_def)
  from run_tasks_names [OF run] df have
    u: "set ok2 \<union> set (map task_name fail2) = set (map task_name fail)" and
    d: "distinct (ok2 @ map task_name fail2)"
    by simp_all
  from u have s2: "set ok2 \<subseteq> set (map task_name fail)" and
    f2: "set (map task_name fail2) \<subseteq> set (map task_name fail)"
    by blast+
  from d have d1: "distinct ok2" and d2: "distinct (map task_name fail2)" and
    d3: "set ok2 \<inter> set (map task_name fail2) = {}"
    by simp_all
  from inv have
    a: "dropped hist" and
    b: "\<forall>r \<in> set hist. \<forall>ok_r fail_r. snd r = Inr (ok_r, fail_r) \<longrightarrow>
         set ok_r \<subseteq> set ok \<and> set ok_r \<inter> set (map task_name fail) = {}" and
    c: "distinct ok" and e: "set ok \<inter> set (map task_name fail) = {}"
    by (simp_all add: loop_inv_def)
  have 1: "dropped (hist @ [(fail, Inr (ok2, fail2))])"
    using a b by (simp add: dropped_snoc)
  have 2: "set ok_r \<subseteq> set (ok @ ok2) \<and> set ok_r \<inter> set (map task_name fail2) = {}"
    if "r \<in> set (hist @ [(fail, Inr (ok2, fail2))])" and "snd r = Inr (ok_r, fail_r)"
    for r ok_r fail_r
  proof (cases "r \<in> set hist")
    case True
    with b that(2) have "set ok_r \<subseteq> set ok" and "set ok_r \<inter> set (map task_name fail) = {}"
      by blast+
    with f2 show ?thesis
      unfolding set_append by blast
  next
    case False
    with that have "ok_r = ok2"
      by auto
    with d3 show ?thesis
      unfolding set_append by blast
  qed
  have 3: "distinct (map task_name fail2)"
    by (rule d2)
  from e s2 have "set ok \<inter> set ok2 = {}"
    by blast
  with c d1 have 4: "distinct (ok @ ok2)"
    by simp
  have 5: "set (ok @ ok2) \<inter> set (map task_name fail2) = {}"
    unfolding set_append using d3 e f2 by blast
  from 1 2 3 4 5 show ?thesis
    unfolding loop_inv_def by blast
qed

lemma loop_inv_crash:
  "loop_inv hist ok fail \<Longrightarrow> dropped (hist @ [(fail, res)])"
  by (simp add: loop_inv_def dropped_snoc)

lemma retry_loop_inv:
  "retry_loop environ path_parent world rank gpu_ids max_retries attempts ok fail hist = (hist', res)
   \<Longrightarrow> loop_inv hist ok fail \<Longrightarrow>
   dropped hist' \<and> (\<forall>ok' fail'. res = Inr (ok', fail') \<longrightarrow> loop_inv hist' ok' fail')"
proof (induction environ path_parent world rank gpu_ids max_retries attempts ok fail hist
       rule: retry_loop.induct)
  case (1 environ path_parent world rank gpu_ids max_retries attempts ok fail hist)
  show ?case
  proof (cases "fail \<noteq> [] \<and> int attempts < max_retries")
    case False
    from "1.prems"(1) have "hist' = hist" and "res = Inr (ok, fail)"
      by (auto simp: retry_loop_stop [OF False])
    with "1.prems"(2) show ?thesis
      by (simp add: loop_inv_def)
  next
    case True
    show ?thesis
    proof (cases "run_tasks environ path_parent (world (Suc attempts)) (rank (Suc attempts)) fail gpu_ids")
      case (Inl e)
      from "1.prems"(1) have "hist' = hist @ [(fail, Inl e)]" and "res = Inl e"
        by (auto simp: retry_loop_crash [where world = world and rank = rank, OF True Inl])
      with loop_inv_crash [OF "1.prems"(2)] show ?thesis
        by simp
    next
      case (Inr p)
      obtain ok2 fail2 where p: "p = (ok2, fail2)"
        by (cases p) auto
      from Inr p have run: "run_tasks environ path_parent (world (Suc attempts)) (rank (Suc attempts))
          fail gpu_ids = Inr (ok2, fail2)"
        by simp
      from "1.prems"(1) have r: "retry_loop environ path_parent world rank gpu_ids max_retries (Suc attempts)
             (ok @ ok2) fail2 (hist @ [(fail, Inr (ok2, fail2))]) = (hist', res)"
        by (simp add: retry_loop_step [where world = world and rank = rank, OF True run])
      from "1.IH" [OF True Inr p [symmetric] r loop_inv_step [OF "1.prems"(2) run]]
      show ?thesis .
    qed
  qed
qed

subsection \<open>The log of the rounds\<close>

lemma chained_first:
  "chained environ path_parent world rank gpu_ids tasks
     [(tasks, run_tasks environ path_parent (world 0) (rank 0) tasks gpu_ids)]"
  by (simp add: chained_def)

lemma chained_snoc:
  assumes c: "chained environ path_parent world rank gpu_ids tasks hist"
    and l: "snd (last hist) = Inr (ok_l, fail)" and ne: "fail \<noteq> []"
    and r: "res = run_tasks environ path_parent (world (length hist)) (rank (length hist)) fail gpu_ids"
  shows "chained environ path_parent world rank gpu_ids tasks (hist @ [(fail, res)])"
proof -
  from c have h: "hist \<noteq> []" and t: "fst (hist ! 0) = tasks" and
    a: "\<And>k. k < length hist \<Longrightarrow>
         snd (hist ! k) = run_tasks environ path_parent (world k) (rank k) (fst (hist ! k)) gpu_ids" and
    b: "\<And>k. Suc k < length hist \<Longrightarrow>
         fst (hist ! Suc k) \<noteq> [] \<and> (\<exists>ok_k. snd (hist ! k) = Inr (ok_k, fst (hist ! Suc k)))"
    unfolding chained_def by blast+
  let ?h = "hist @ [(fail, res)]"
  have 1: "?h \<noteq> []" by simp
  have 2: "fst (?h ! 0) = tasks"
    using h t by (simp add: nth_append)
  have 3: "snd (?h ! k) = run_tasks environ path_parent (world k) (rank k) (fst (?h ! k)) gpu_ids"
    if "k < length ?h" for k
  proof (cases "k < length hist")
    case True
    with a [OF True] show ?thesis
      by (simp add: nth_append)
  next
    case False
    with that have "k = length hist"
      by simp
    with r show ?thesis
      by simp
  qed
  have 4: "fst (?h ! Suc k) \<noteq> [] \<and> (\<exists>ok_k. snd (?h ! k) = Inr (ok_k, fst (?h ! Suc k)))"
    if "Suc k < length ?h" for k
  proof (cases "Suc k < length hist")
    case True
    with b [OF True] show ?thesis
      by (simp add: nth_append)
  next
    case False
    with that have k: "Suc k = length hist"
      by simp
    from k have "k = length hist - 1"
      by simp
    with last_conv_nth [OF h] have "hist ! k = last hist"
      by simp
    with l k ne show ?thesis
      by (simp add: nth_append)
  qed
  from 1 2 3 4 show ?thesis
    unfolding chained_def by blast
qed

lemma round_ok_simps [simp]:
  "round_ok (ts, Inr (ok, fail)) = ok" "round_ok (ts, Inl e) = []"
  by (simp_all add: round_ok_def)

lemma outcome_of_Inl: "outcome_of (hist @ [(fail, Inl e)]) = Inl e"
  by (simp add: outcome_of_def)

lemma retry_loop_chained:
  "retry_loop environ path_parent world rank gpu_ids max_retries attempts ok fail hist = (hist', res)
   \<Longrightarrow> chained environ path_parent world rank gpu_ids tasks hist
   \<Longrightarrow> length hist = Suc attempts
   \<Longrightarrow> snd (last hist) = Inr (ok_l, fail)
   \<Longrightarrow> ok = concat (map round_ok hist)
   \<Longrightarrow> chained environ path_parent world rank gpu_ids tasks hist' \<and> res = outcome_of hist'"
proof (induction environ path_parent world rank gpu_ids max_retries attempts ok fail hist
       arbitrary: ok_l rule: retry_loop.induct)
  case (1 environ path_parent world rank gpu_ids max_retries attempts ok fail hist)
  show ?case
  proof (cases "fail \<noteq> [] \<and> int attempts < max_retries")
    case False
    from "1.prems"(1) have "hist' = hist" and "res = Inr (ok, fail)"
      by (auto simp: retry_loop_stop [OF False])
    with "1.prems" show ?thesis
      by (simp add: outcome_of_def)
  next
    case True
    let ?res = "run_tasks environ path_parent (world (Suc attempts)) (rank (Suc attempts)) fail gpu_ids"
    from True have ne: "fail \<noteq> []"
      by simp
    from "1.prems"(3) have "?res = run_tasks environ path_parent (world (length hist)) (rank (length hist))
        fail gpu_ids"
      by simp
    from chained_snoc [OF "1.prems"(2,4) ne this] have
      ch: "chained environ path_parent world rank gpu_ids tasks (hist @ [(fail, ?res)])" .
    show ?thesis
    proof (cases ?res)
      case (Inl e)
      from "1.prems"(1) have "hist' = hist @ [(fail, Inl e)]" and "res = Inl e"
        by (auto simp: retry_loop_crash [where world = world and rank = rank, OF True Inl])
      with ch Inl show ?thesis
        by (simp add: outcome_of_Inl)
    next
      case (Inr p)
      obtain ok2 fail2 where p: "p = (ok2, fail2)"
        by (cases p) auto
      from Inr p have run: "?res = Inr (ok2, fail2)"
        by simp
      from "1.prems"(1) have r: "retry_loop environ path_parent world rank gpu_ids max_retries (Suc attempts)
             (ok @ ok2) fail2 (hist @ [(fail, Inr (ok2, fail2))]) = (hist', res)"
        by (simp add: retry_loop_step [where world = world and rank = rank, OF True run])
      from ch run have c2: "chained environ path_parent world rank gpu_ids tasks
          (hist @ [(fail, Inr (ok2, fail2))])"
        by simp
      from "1.prems"(3) have l2: "length (hist @ [(fail, Inr (ok2, fail2))]) = Suc (Suc attempts)"
        by simp
      have s2: "snd (last (hist @ [(fail, Inr (ok2, fail2))])) = Inr (ok2, fail2)"
        by simp
      from "1.prems"(5) have o2: "ok @ ok2 = concat (map round_ok (hist @ [(fail, Inr (ok2, fail2))]))"
        by simp
      from "1.IH" [OF True Inr p [symmetric] r c2 l2 s2 o2] show ?thesis .
    qed
  qed
qed

lemma name_count_one:
  assumes "distinct (map task_name ts)" and "n \<in> set (map task_name ts)"
  shows "length (filter (\<lambda>t. task_name t = n) ts) = 1"
proof -
  from assms(2) obtain t where t: "t \<in> set ts" and n: "task_name t = n"
    by auto
  from sole_count [OF sole_distinct [OF assms(1) t]] n show ?thesis
    by simp
qed

lemma retry_loop_ok_grows:
  "retry_loop environ path_parent world rank gpu_ids max_retries attempts ok fail hist =
     (hist', Inr (ok', fail')) \<Longrightarrow> set ok \<subseteq> set ok'"
proof (induction environ path_parent world rank gpu_ids max_retries attempts ok fail hist
       rule: retry_loop.induct)
  case (1 environ path_parent world rank gpu_ids max_retries attempts ok fail hist)
  show ?case
  proof (cases "fail \<noteq> [] \<and> int attempts < max_retries")
    case False
    with "1.prems" show ?thesis
      by (auto simp: retry_loop_stop)
  next
    case True
    show ?thesis
    proof (cases "run_tasks environ path_parent (world (Suc attempts)) (rank (Suc attempts)) fail gpu_ids")
      case (Inl e)
      with "1.prems" show ?thesis
        by (simp add: retry_loop_crash [where world = world and rank = rank, OF True Inl])
    next
      case (Inr p)
      obtain ok2 fail2 where p: "p = (ok2, fail2)"
        by (cases p) auto
      from "1.prems"(1) have r: "retry_loop environ path_parent world rank gpu_ids max_retries (Suc attempts)
             (ok @ ok2) fail2 (hist @ [(fail, Inr (ok2, fail2))]) = (hist', Inr (ok', fail'))"
        by (simp add: retry_loop_step [where world = world and rank = rank, OF True Inr [unfolded p]])
      from "1.IH" [OF True Inr p [symmetric] r] show ?thesis
        by simp
    qed
  qed
qed

text \<open>A job that is pending and is in the end not among the succeeded was handed to every
  round the budget allows and is still in the failed list.\<close>

lemma retry_loop_never_ok:
  "retry_loop environ path_parent world rank gpu_ids max_retries attempts ok fail hist =
     (hist', Inr (ok', fail')) \<Longrightarrow>
   distinct (map task_name fail) \<Longrightarrow> n \<in> set (map task_name fail) \<Longrightarrow> n \<notin> set ok' \<Longrightarrow>
   attempts_of n hist' = attempts_of n hist + nat (max_retries - int attempts) \<and>
   n \<in> set (map task_name fail')"
proof (induction environ path_parent world rank gpu_ids max_retries attempts ok fail hist
       rule: retry_loop.induct)
  case (1 environ path_parent world rank gpu_ids max_retries attempts ok fail hist)
  from "1.prems"(3) have ne: "fail \<noteq> []"
    by auto
  show ?case
  proof (cases "fail \<noteq> [] \<and> int attempts < max_retries")
    case False
    with ne "1.prems" show ?thesis
      by (auto simp: retry_loop_stop)
  next
    case True
    show ?thesis
    proof (cases "run_tasks environ path_parent (world (Suc attempts)) (rank (Suc attempts)) fail gpu_ids")
      case (Inl e)
      with "1.prems" show ?thesis
        by (simp add: retry_loop_crash [where world = world and rank = rank, OF True Inl])
    next
      case (Inr p)
      obtain ok2 fail2 where p: "p = (ok2, fail2)"
        by (cases p) auto
      from Inr p have run: "run_tasks environ path_parent (world (Suc attempts)) (rank (Suc attempts))
          fail gpu_ids = Inr (ok2, fail2)"
        by simp
      from "1.prems"(1) have r: "retry_loop environ path_parent world rank gpu_ids max_retries (Suc attempts)
             (ok @ ok2) fail2 (hist @ [(fail, Inr (ok2, fail2))]) = (hist', Inr (ok', fail'))"
        by (simp add: retry_loop_step [where world = world and rank = rank, OF True run])
      from retry_loop_ok_grows [OF r] "1.prems"(4) have "n \<notin> set ok2"
        by auto
      with run_tasks_names(1) [OF run] "1.prems"(3) have n2: "n \<in> set (map task_name fail2)"
        by blast
      from run_tasks_names(2) [OF run "1.prems"(2)] have d2: "distinct (map task_name fail2)"
        by simp
      from True have "int attempts < max_retries"
        by simp
      from "1.IH" [OF True Inr p [symmetric] r d2 n2 "1.prems"(4)]
        budget_step [OF this] name_count_one [OF "1.prems"(2,3)]
      show ?thesis
        by (simp add: attempts_of_snoc)
    qed
  qed
qed

lemma demo_doomed: "doomed demo_environ demo_world cmd_B"
  unfolding doomed_def
proof (intro allI)
  fix r i gpu_id log_file cwd
  show "\<exists>ret. run_one demo_environ (demo_world r i) cmd_B gpu_id log_file cwd = Inr ret \<and> ret \<noteq> 0"
    by (cases log_file)
       (simp_all add: run_one_def spawn_args_def demo_world_def clean_exit_def classify_def)
qed

text \<open>C3. The driver is a total function: given that every child ends, it ends. Its log
  \<open>hist\<close> is the sequence of rounds it ran: the first on the submitted list, every entry
  with the result \<^verbatim>\<open>run_tasks\<close> gave for that round's list, every later round on the
  nonempty failed list of the round before. There are at most \<open>max_retries + 1\<close> rounds
  (one when the budget is negative). The driver ends with the exception of the last round,
  or with the succeeded names of all rounds and the failed list of the last round; in the
  latter case nothing is left failed or exactly \<open>max_retries + 1\<close> rounds were run.
  With distinct job names: a job that is in no round among the succeeded, and so a job
  whose command fails whenever it is run, is handed to a round exactly
  \<open>max_retries + 1\<close> times and is named in the final failed list; a name that some round
  reported as succeeded is in no later round's list, is in the final succeeded list and
  not in the final failed list; the final succeeded list names nobody twice.\<close>

theorem retry_driver_bounded:
  assumes drv: "driver environ path_parent world rank tasks gpu_ids max_retries = (hist, res)"
  shows "hist \<noteq> [] \<and> fst (hist ! 0) = tasks \<and>
    (\<forall>k < length hist.
        snd (hist ! k) = run_tasks environ path_parent (world k) (rank k) (fst (hist ! k)) gpu_ids) \<and>
    (\<forall>k. Suc k < length hist \<longrightarrow>
        fst (hist ! Suc k) \<noteq> [] \<and> (\<exists>ok_k. snd (hist ! k) = Inr (ok_k, fst (hist ! Suc k)))) \<and>
    length hist \<le> nat max_retries + 1 \<and>
    res = (case snd (last hist) of
             Inl e \<Rightarrow> Inl e
           | Inr (ok_l, fail_l) \<Rightarrow> Inr (concat (map round_ok hist), fail_l)) \<and>
    (\<forall>ok fail. res = Inr (ok, fail) \<longrightarrow> fail = [] \<or> length hist = nat max_retries + 1) \<and>
    (distinct (map task_name tasks) \<longrightarrow>
       (\<forall>ok fail n.
           res = Inr (ok, fail) \<and> n \<in> set (map task_name tasks) \<and>
           (\<forall>k < length hist. n \<notin> set (round_ok (hist ! k))) \<longrightarrow>
           attempts_of n hist = nat max_retries + 1 \<and> n \<in> set (map task_name fail)) \<and>
       (\<forall>ok fail t. res = Inr (ok, fail) \<and> t \<in> set tasks \<and> doomed environ world (task_cmd t) \<longrightarrow>
           attempts_of (task_name t) hist = nat max_retries + 1 \<and>
           task_name t \<in> set (map task_name fail) \<and> task_name t \<notin> set ok) \<and>
       (\<forall>k k' ts ok_k fail_k.
           k < k' \<and> k' < length hist \<and> hist ! k = (ts, Inr (ok_k, fail_k)) \<longrightarrow>
           set ok_k \<inter> set (map task_name (fst (hist ! k'))) = {}) \<and>
       (\<forall>ok fail k ts ok_k fail_k.
           res = Inr (ok, fail) \<and> k < length hist \<and> hist ! k = (ts, Inr (ok_k, fail_k)) \<longrightarrow>
           set ok_k \<subseteq> set ok \<and> set ok_k \<inter> set (map task_name fail) = {}) \<and>
       (\<forall>ok fail. res = Inr (ok, fail) \<longrightarrow> distinct ok))"
proof (cases "run_tasks environ path_parent (world 0) (rank 0) tasks gpu_ids")
  case (Inl e)
  with drv have h: "hist = [(tasks, Inl e)]" and r: "res = Inl e"
    by (auto simp: driver_def)
  have b: "\<forall>k < length hist.
        snd (hist ! k) = run_tasks environ path_parent (world k) (rank k) (fst (hist ! k)) gpu_ids"
    using Inl by (simp add: h)
  have x: "hist \<noteq> [] \<and> fst (hist ! 0) = tasks"
    by (simp add: h)
  have c: "\<forall>k. Suc k < length hist \<longrightarrow>
        fst (hist ! Suc k) \<noteq> [] \<and> (\<exists>ok_k. snd (hist ! k) = Inr (ok_k, fst (hist ! Suc k)))"
    by (simp add: h)
  have l: "length hist \<le> nat max_retries + 1"
    by (simp add: h)
  have o: "res = (case snd (last hist) of
             Inl e \<Rightarrow> Inl e
           | Inr (ok_l, fail_l) \<Rightarrow> Inr (concat (map round_ok hist), fail_l))"
    by (simp add: h r)
  have n: "res \<noteq> Inr (ok, fail)" for ok fail
    by (simp add: r)
  have d: "\<not> (k < k' \<and> k' < length hist)" for k k'
    by (simp add: h)
  from x b c l o n d show ?thesis
    by blast
next
  case (Inr p)
  obtain ok0 fail0 where p: "p = (ok0, fail0)"
    by (cases p) auto
  from Inr p have run: "run_tasks environ path_parent (world 0) (rank 0) tasks gpu_ids = Inr (ok0, fail0)"
    by simp
  let ?h0 = "[(tasks, Inr (ok0, fail0))]"
  from drv run have loop: "retry_loop environ path_parent world rank gpu_ids max_retries 0
      ok0 fail0 ?h0 = (hist, res)"
    by (simp add: driver_def)
  have c0: "chained environ path_parent world rank gpu_ids tasks ?h0"
    using chained_first [of environ path_parent world rank gpu_ids tasks] run by simp
  from retry_loop_chained [OF loop c0, of ok0] have
    ch: "chained environ path_parent world rank gpu_ids tasks hist" and
    out: "res = outcome_of hist"
    by simp_all
  from ch [unfolded chained_def] have a: "hist \<noteq> [] \<and> fst (hist ! 0) = tasks \<and>
    (\<forall>k < length hist.
        snd (hist ! k) = run_tasks environ path_parent (world k) (rank k) (fst (hist ! k)) gpu_ids) \<and>
    (\<forall>k. Suc k < length hist \<longrightarrow>
        fst (hist ! Suc k) \<noteq> [] \<and> (\<exists>ok_k. snd (hist ! k) = Inr (ok_k, fst (hist ! Suc k))))" .
  have 1: "length hist \<le> nat max_retries + 1"
    using retry_loop_length [of environ path_parent world rank gpu_ids max_retries 0 ok0 fail0 ?h0]
      loop by simp
  have 2: "fail = [] \<or> length hist = nat max_retries + 1" if "res = Inr (ok, fail)" for ok fail
    using retry_loop_exit [OF loop [unfolded that]] by auto
  have okc: "ok = concat (map round_ok hist)" if "res = Inr (ok, fail)" for ok fail
    using out that by (auto simp: outcome_of_def split: sum.splits)
  have rest: "(\<forall>ok fail n.
           res = Inr (ok, fail) \<and> n \<in> set (map task_name tasks) \<and>
           (\<forall>k < length hist. n \<notin> set (round_ok (hist ! k))) \<longrightarrow>
           attempts_of n hist = nat max_retries + 1 \<and> n \<in> set (map task_name fail)) \<and>
       (\<forall>ok fail t. res = Inr (ok, fail) \<and> t \<in> set tasks \<and> doomed environ world (task_cmd t) \<longrightarrow>
           attempts_of (task_name t) hist = nat max_retries + 1 \<and>
           task_name t \<in> set (map task_name fail) \<and> task_name t \<notin> set ok) \<and>
       (\<forall>k k' ts ok_k fail_k.
           k < k' \<and> k' < length hist \<and> hist ! k = (ts, Inr (ok_k, fail_k)) \<longrightarrow>
           set ok_k \<inter> set (map task_name (fst (hist ! k'))) = {}) \<and>
       (\<forall>ok fail k ts ok_k fail_k.
           res = Inr (ok, fail) \<and> k < length hist \<and> hist ! k = (ts, Inr (ok_k, fail_k)) \<longrightarrow>
           set ok_k \<subseteq> set ok \<and> set ok_k \<inter> set (map task_name fail) = {}) \<and>
       (\<forall>ok fail. res = Inr (ok, fail) \<longrightarrow> distinct ok)"
    if names: "distinct (map task_name tasks)"
  proof -
    have 3: "attempts_of n hist = nat max_retries + 1 \<and> n \<in> set (map task_name fail)"
      if "res = Inr (ok, fail) \<and> n \<in> set (map task_name tasks) \<and>
          (\<forall>k < length hist. n \<notin> set (round_ok (hist ! k)))" for ok fail n
    proof -
      from that have r: "res = Inr (ok, fail)" and n: "n \<in> set (map task_name tasks)" and
        never: "\<forall>k < length hist. n \<notin> set (round_ok (hist ! k))"
        by simp_all
      have "n \<notin> set (concat (map round_ok hist))"
      proof
        assume "n \<in> set (concat (map round_ok hist))"
        then obtain r where "r \<in> set hist" and m: "n \<in> set (round_ok r)"
          by auto
        then obtain k where "k < length hist" and "hist ! k = r"
          by (auto simp only: in_set_conv_nth)
        with never m show False
          by blast
      qed
      with okc [OF r] have no: "n \<notin> set ok"
        by simp
      with retry_loop_ok_grows [OF loop [unfolded r]] have "n \<notin> set ok0"
        by blast
      with run_tasks_names(1) [OF run] n have n0: "n \<in> set (map task_name fail0)"
        by blast
      from run_tasks_names(2) [OF run names] have d0: "distinct (map task_name fail0)"
        by simp
      from name_count_one [OF names n] have "attempts_of n ?h0 = 1"
        by (simp add: attempts_of_def)
      with retry_loop_never_ok [OF loop [unfolded r] d0 n0 no] show ?thesis
        by simp
    qed
    have 4: "attempts_of (task_name t) hist = nat max_retries + 1 \<and>
           task_name t \<in> set (map task_name fail) \<and> task_name t \<notin> set ok"
      if "res = Inr (ok, fail) \<and> t \<in> set tasks \<and> doomed environ world (task_cmd t)" for ok fail t
    proof -
      from that have r: "res = Inr (ok, fail)" and t: "t \<in> set tasks" and
        d: "doomed environ world (task_cmd t)"
        by simp_all
      from run_tasks_doomed [OF run sole_distinct [OF names t] d] have
        s0: "sole (task_name t) (task_cmd t) fail0" and o0: "task_name t \<notin> set ok0"
        by simp_all
      from retry_loop_doomed [OF loop [unfolded r] s0 d o0] have
        a: "attempts_of (task_name t) hist = attempts_of (task_name t) ?h0 + nat max_retries" and
        s: "sole (task_name t) (task_cmd t) fail" and o: "task_name t \<notin> set ok"
        by simp_all
      from sole_count [OF sole_distinct [OF names t]] have "attempts_of (task_name t) ?h0 = 1"
        by (simp add: attempts_of_def)
      with a sole_member [OF s] o show ?thesis
        by simp
    qed
    from retry_loop_inv [OF loop loop_inv_first [OF run names]] have
      dr: "dropped hist" and inv: "\<And>ok fail. res = Inr (ok, fail) \<Longrightarrow> loop_inv hist ok fail"
      by simp_all
    have 5: "set ok_k \<inter> set (map task_name (fst (hist ! k'))) = {}"
      if "k < k' \<and> k' < length hist \<and> hist ! k = (ts, Inr (ok_k, fail_k))" for k k' ts ok_k fail_k
      using dr [unfolded dropped_def, rule_format, of k' k ok_k fail_k] that by simp
    have 6: "set ok_k \<subseteq> set ok \<and> set ok_k \<inter> set (map task_name fail) = {}"
      if "res = Inr (ok, fail) \<and> k < length hist \<and> hist ! k = (ts, Inr (ok_k, fail_k))"
      for ok fail k ts ok_k fail_k
    proof -
      from that have l: "k < length hist" and e: "hist ! k = (ts, Inr (ok_k, fail_k))"
        by simp_all
      from l have "hist ! k \<in> set hist"
        by (rule nth_mem)
      moreover from e have "snd (hist ! k) = Inr (ok_k, fail_k)"
        by simp
      ultimately have "hist ! k \<in> set hist" and "snd (hist ! k) = Inr (ok_k, fail_k)" .
      with inv [of ok fail] that show ?thesis
        unfolding loop_inv_def by blast
    qed
    have 7: "distinct ok" if "res = Inr (ok, fail)" for ok fail
      using inv [OF that] by (simp add: loop_inv_def)
    from 3 4 5 6 7 show ?thesis
      by blast
  qed
  from out have o: "res = (case snd (last hist) of
             Inl e \<Rightarrow> Inl e
           | Inr (ok_l, fail_l) \<Rightarrow> Inr (concat (map round_ok hist), fail_l))"
    by (simp only: outcome_of_def)
  from a 1 o 2 rest show ?thesis
    by blast
qed

theorem retry_driver_bounded_witness:
  "distinct (map task_name [task_A, task_B]) \<and> doomed demo_environ demo_world (task_cmd task_B) \<and>
   driver demo_environ demo_parent demo_world demo_rank [task_A, task_B] [0, 1] 1 =
     ([([task_A, task_B], Inr ([''seed_A''], [(cmd_B, 1, ''seed_B'', None)])),
       ([(cmd_B, 1, ''seed_B'', None)], Inr ([], [(cmd_B, 0, ''seed_B'', None)]))],
      Inr ([''seed_A''], [(cmd_B, 0, ''seed_B'', None)])) \<and>
   run_tasks demo_environ demo_parent (demo_world 1) (demo_rank 1) [(cmd_B, 1, ''seed_B'', None)] [0, 1] =
     Inr ([], [(cmd_B, 0, ''seed_B'', None)]) \<and>
   attempts_of ''seed_B''
     [([task_A, task_B], Inr ([''seed_A''], [(cmd_B, 1, ''seed_B'', None)])),
      ([(cmd_B, 1, ''seed_B'', None)], Inr ([], [(cmd_B, 0, ''seed_B'', None)]))] = 2 \<and>
   ''seed_B'' \<in> set (map task_name [(cmd_B, 0, ''seed_B'', None)]) \<and>
   ''seed_B'' \<notin> set [''seed_A'']"
proof -
  let ?H = "[([task_A, task_B], Inr ([''seed_A''], [(cmd_B, 1, ''seed_B'', None)])),
      ([(cmd_B, 1, ''seed_B'', None)], Inr ([], [(cmd_B, 0, ''seed_B'', None)]))]"
  have d: "distinct (map task_name [task_A, task_B])"
    by (simp add: task_A_def task_B_def task_name_def)
  have c: "task_cmd task_B = cmd_B" "task_name task_B = ''seed_B''"
    by (simp_all add: task_B_def task_sel)
  have m: "task_B \<in> set [task_A, task_B]"
    by simp
  have dm: "doomed demo_environ demo_world (task_cmd task_B)"
    using demo_doomed by (simp add: c)
  note T = retry_driver_bounded [OF demo_driver]
  note Tb = T [THEN conjunct2, THEN conjunct2, THEN conjunct1]
  note Td = T [THEN conjunct2, THEN conjunct2, THEN conjunct2, THEN conjunct2, THEN conjunct2,
      THEN conjunct2, THEN conjunct2, THEN mp, OF d, THEN conjunct2, THEN conjunct1]
  have "(1::nat) < length ?H"
    by simp
  from Tb [rule_format, OF this] have r: "run_tasks demo_environ demo_parent (demo_world 1) (demo_rank 1)
      [(cmd_B, 1, ''seed_B'', None)] [0, 1] = Inr ([], [(cmd_B, 0, ''seed_B'', None)])"
    by simp
  from Td [rule_format, OF conjI [OF refl conjI [OF m dm]]]
  have a: "attempts_of (task_name task_B) ?H = nat 1 + 1 \<and>
      task_name task_B \<in> set (map task_name [(cmd_B, 0, ''seed_B'', None)]) \<and>
      task_name task_B \<notin> set [''seed_A'']" .
  from a have "attempts_of ''seed_B'' ?H = 2 \<and>
      ''seed_B'' \<in> set (map task_name [(cmd_B, 0, ''seed_B'', None)]) \<and>
      ''seed_B'' \<notin> set [''seed_A'']"
    by (simp only: c) simp
  with d dm demo_driver r show ?thesis
    by (simp only: simp_thms)
qed

end
